theory Spec2Isabelle
  imports Main "HOL-Library.Char_ord" "HOL-Library.List_Lexorder" "HOL-Library.Multiset"
begin

section \<open>Levels (llog.go, lines 48-113)\<close>

text \<open>
  \<^verbatim>\<open>type Level int\<close> with the constants \<^verbatim>\<open>DebugLevel .. FatalLevel\<close> numbered by
  \<^verbatim>\<open>iota\<close>. A level is an integer: values outside \<open>0..4\<close> are legal arguments of
  \<^verbatim>\<open>SetLevel\<close>, and the code only ever compares levels, so no arithmetic can overflow.
\<close>

type_synonym Level = int

definition DebugLevel :: Level where "DebugLevel = 0"
definition InfoLevel :: Level where "InfoLevel = 1"
definition WarnLevel :: Level where "WarnLevel = 2"
definition ErrorLevel :: Level where "ErrorLevel = 3"
definition FatalLevel :: Level where "FatalLevel = 4"

text \<open>\<^verbatim>\<open>func (l Level) String() string\<close>\<close>

definition Level_String :: "Level \<Rightarrow> string" where
  "Level_String l =
     (if l = DebugLevel then ''DEBUG''
      else if l = InfoLevel then ''INFO''
      else if l = WarnLevel then ''WARN''
      else if l = ErrorLevel then ''ERROR''
      else if l = FatalLevel then ''FATAL''
      else ''unknown level'')"

section \<open>Values and their default rendering\<close>

text \<open>
  The values of a \<^verbatim>\<open>KV\<close> are \<^verbatim>\<open>interface{}\<close>. The model keeps the kinds of value the
  package and its tests put there: strings, integers, booleans, and error values (an
  error is represented by the text its \<^verbatim>\<open>Error()\<close> method returns). \<open>Sprint\<close> is
  \<^verbatim>\<open>fmt.Sprint\<close> on one operand of these kinds.
\<close>

datatype val = VString string | VInt int | VBool bool | VError string

definition digit :: "nat \<Rightarrow> char" where
  "digit n = char_of (48 + n)"

fun decimal :: "nat \<Rightarrow> string" where
  "decimal n = (if n < 10 then [digit n] else decimal (n div 10) @ [digit (n mod 10)])"

declare decimal.simps [simp del]

fun Sprint :: "val \<Rightarrow> string" where
  "Sprint (VString s) = s"
| "Sprint (VInt i) = (if i < 0 then CHR ''-'' # decimal (nat (- i)) else decimal (nat i))"
| "Sprint (VBool b) = (if b then ''true'' else ''false'')"
| "Sprint (VError m) = m"

section \<open>Quoting (strings.Replace and strconv.QuoteToASCII of the Go library)\<close>

text \<open>
  A Go string is a sequence of bytes; so is an Isabelle \<open>string\<close>. \<open>dquote\<close> is the
  byte \<open>0x22\<close>, \<open>squote\<close> is \<open>0x27\<close>, \<open>bslash\<close> is \<open>0x5C\<close>.
\<close>

definition dquote :: char where "dquote = CHR 0x22"
definition squote :: char where "squote = CHR 0x27"
definition bslash :: char where "bslash = CHR 0x5C"

text \<open>
  \<^verbatim>\<open>strings.Replace(s, old, new, -1)\<close> for one-byte \<open>old\<close> and \<open>new\<close>: every occurrence
  is replaced.
\<close>

definition Replace :: "string \<Rightarrow> char \<Rightarrow> char \<Rightarrow> string" where
  "Replace s old new = map (\<lambda>c. if c = old then new else c) s"

text \<open>\<^verbatim>\<open>lowerhex[n]\<close> for \<open>n < 16\<close>.\<close>

definition lowerhex :: "nat \<Rightarrow> char" where
  "lowerhex n = ''0123456789abcdef'' ! (n mod 16)"

text \<open>A continuation byte lies in \<open>lo..hi\<close>.\<close>

definition inrange :: "nat \<Rightarrow> nat \<Rightarrow> char \<Rightarrow> bool" where
  "inrange lo hi c = (lo \<le> of_char c \<and> of_char c \<le> hi)"

text \<open>
  \<^verbatim>\<open>utf8.DecodeRuneInString\<close> on a string whose first byte \<open>s0\<close> is at least \<open>0x80\<close>:
  the rune and its width, or \<open>None\<close> for \<^verbatim>\<open>(RuneError, 1)\<close>. The second byte must lie
  in the accept range of the first; the later ones in \<open>0x80..0xBF\<close>.
\<close>

definition accept_lo :: "nat \<Rightarrow> nat" where
  "accept_lo s0 = (if s0 = 0xE0 then 0xA0 else if s0 = 0xF0 then 0x90 else 0x80)"

definition accept_hi :: "nat \<Rightarrow> nat" where
  "accept_hi s0 = (if s0 = 0xED then 0x9F else if s0 = 0xF4 then 0x8F else 0xBF)"

definition maskx :: "char \<Rightarrow> nat" where
  "maskx c = of_char c mod 64"

fun DecodeRune :: "nat \<Rightarrow> string \<Rightarrow> (nat \<times> nat) option" where
  "DecodeRune s0 [] = None"
| "DecodeRune s0 (s1 # rest1) =
     (if s0 < 0xC2 \<or> 0xF4 < s0 then None
      else if \<not> inrange (accept_lo s0) (accept_hi s0) s1 then None
      else if s0 < 0xE0 then Some ((s0 mod 32) * 64 + maskx s1, 2)
      else (case rest1 of
        [] \<Rightarrow> None
      | s2 # rest2 \<Rightarrow>
          (if \<not> inrange 0x80 0xBF s2 then None
           else if s0 < 0xF0 then Some ((s0 mod 16) * 4096 + maskx s1 * 64 + maskx s2, 3)
           else (case rest2 of
             [] \<Rightarrow> None
           | s3 # rest3 \<Rightarrow>
               (if \<not> inrange 0x80 0xBF s3 then None
                else Some ((s0 mod 8) * 262144 + maskx s1 * 4096 + maskx s2 * 64 + maskx s3, 4))))))"

declare DecodeRune.simps [simp del]

text \<open>\<open>hexdigits k r\<close>: the \<open>k\<close> low hexadecimal digits of \<open>r\<close>, most significant first.\<close>

fun hexdigits :: "nat \<Rightarrow> nat \<Rightarrow> string" where
  "hexdigits 0 r = []"
| "hexdigits (Suc k) r = hexdigits k (r div 16) @ [lowerhex (r mod 16)]"

text \<open>
  \<^verbatim>\<open>appendEscapedRune(buf, r, '"', true, false)\<close>: the bytes appended for the rune \<open>r\<close>.
\<close>

definition ValidRune :: "nat \<Rightarrow> bool" where
  "ValidRune r = (r < 0xD800 \<or> (0xDFFF < r \<and> r \<le> 0x10FFFF))"

definition EscapedRune :: "nat \<Rightarrow> string" where
  "EscapedRune r =
     (if r = 34 \<or> r = 92 then [bslash, char_of r]
      else if r < 0x80 \<and> 0x20 \<le> r \<and> r \<le> 0x7E then [char_of r]
      else if r = 7 then [bslash, CHR ''a'']
      else if r = 8 then [bslash, CHR ''b'']
      else if r = 12 then [bslash, CHR ''f'']
      else if r = 10 then [bslash, CHR ''n'']
      else if r = 13 then [bslash, CHR ''r'']
      else if r = 9 then [bslash, CHR ''t'']
      else if r = 11 then [bslash, CHR ''v'']
      else if r < 0x20 \<or> r = 0x7F then [bslash, CHR ''x''] @ hexdigits 2 r
      else if \<not> ValidRune r then [bslash, CHR ''u''] @ hexdigits 4 0xFFFD
      else if r < 0x10000 then [bslash, CHR ''u''] @ hexdigits 4 r
      else [bslash, CHR ''U''] @ hexdigits 8 r)"

text \<open>
  The loop of \<^verbatim>\<open>appendQuotedWith\<close>: a byte below \<open>0x80\<close> is its own rune; otherwise the
  rune is decoded, and a byte that starts no valid encoding is written as \<^verbatim>\<open>\xNN\<close>.
\<close>

fun quoteLoop :: "string \<Rightarrow> string" where
  "quoteLoop [] = []"
| "quoteLoop (c # cs) =
     (if of_char c < (0x80::nat) then EscapedRune (of_char c) @ quoteLoop cs
      else (case DecodeRune (of_char c) cs of
        None \<Rightarrow> [bslash, CHR ''x''] @ hexdigits 2 (of_char c) @ quoteLoop cs
      | Some (r, width) \<Rightarrow> EscapedRune r @ quoteLoop (drop (width - 1) cs)))"

definition QuoteToASCII :: "string \<Rightarrow> string" where
  "QuoteToASCII s = [dquote] @ quoteLoop s @ [dquote]"

section \<open>Attribute sets (llog.go, lines 115-176)\<close>

text \<open>
  \<^verbatim>\<open>type KV map[string]interface{}\<close>. A Go map is \<^verbatim>\<open>nil\<close> or a table with one value
  per key, and ranging over it visits the entries in an order the runtime chooses. The
  model is \<open>None\<close> for \<^verbatim>\<open>nil\<close> and otherwise the list of the entries in the order a
  \<^verbatim>\<open>range\<close> visits them; \<open>wf_KV\<close> says that no key occurs twice. Theorems about the
  result of a \<^verbatim>\<open>range\<close> loop quantify over every such list.
\<close>

type_synonym KV = "(string \<times> val) list option"

definition entries :: "KV \<Rightarrow> (string \<times> val) list" where
  "entries kv = (case kv of None \<Rightarrow> [] | Some m \<Rightarrow> m)"

definition wf_KV :: "KV \<Rightarrow> bool" where
  "wf_KV kv = distinct (map fst (entries kv))"

text \<open>The value a lookup \<^verbatim>\<open>kv[k]\<close> finds, if any.\<close>

definition lookup :: "KV \<Rightarrow> string \<Rightarrow> val option" where
  "lookup kv k = map_of (entries kv) k"

text \<open>The assignment \<^verbatim>\<open>kv[k] = v\<close> on a table.\<close>

fun assign :: "string \<Rightarrow> val \<Rightarrow> (string \<times> val) list \<Rightarrow> (string \<times> val) list" where
  "assign k v [] = [(k, v)]"
| "assign k v (p # m) = (if fst p = k then (k, v) # m else p # assign k v m)"

text \<open>The loop \<^verbatim>\<open>for k, v := range src { dst[k] = v }\<close>.\<close>

fun assign_all :: "(string \<times> val) list \<Rightarrow> (string \<times> val) list \<Rightarrow> (string \<times> val) list" where
  "assign_all [] dst = dst"
| "assign_all (p # src) dst = assign_all src (assign (fst p) (snd p) dst)"

text \<open>\<^verbatim>\<open>func (kv KV) Copy() KV\<close>\<close>

definition Copy :: "KV \<Rightarrow> KV" where
  "Copy kv = Some (assign_all (entries kv) [])"

text \<open>\<^verbatim>\<open>func Merge(kvs ...KV) KV\<close>: the outer loop over \<open>kvs\<close>, from a fresh table.\<close>

fun Merge_loop :: "KV list \<Rightarrow> (string \<times> val) list \<Rightarrow> (string \<times> val) list" where
  "Merge_loop [] kv = kv"
| "Merge_loop (kvi # kvs) kv = Merge_loop kvs (assign_all (entries kvi) kv)"

definition Merge :: "KV list \<Rightarrow> KV" where
  "Merge kvs = Some (Merge_loop kvs [])"

text \<open>\<^verbatim>\<open>func (kv KV) Set(k string, v interface{}) KV\<close>\<close>

definition Set :: "KV \<Rightarrow> string \<Rightarrow> val \<Rightarrow> KV" where
  "Set kv k v = Some (assign k v (entries (Copy kv)))"

record kvE =
  K :: string
  V :: val

type_synonym kvL = "kvE list"

text \<open>
  \<^verbatim>\<open>func (l kvL) Less(i, j int) bool\<close>, on the two elements: Go compares strings
  bytewise, which is the lexicographic order of byte lists.
\<close>

definition Less :: "kvE \<Rightarrow> kvE \<Rightarrow> bool" where
  "Less a b = (K a < K b)"

text \<open>
  \<^verbatim>\<open>sort.Sort(kvl)\<close> orders the list by \<open>Less\<close> alone. It is modelled by insertion
  sort; \<open>kvTo\<close> sorts the entries of a map, whose keys are distinct, and there a list
  has one sorted arrangement only (\<open>Sort_unique\<close> below).
\<close>

fun Sort_insert :: "kvE \<Rightarrow> kvL \<Rightarrow> kvL" where
  "Sort_insert x [] = [x]"
| "Sort_insert x (y # ys) = (if Less x y then x # y # ys else y # Sort_insert x ys)"

fun Sort :: "kvL \<Rightarrow> kvL" where
  "Sort [] = []"
| "Sort (x # xs) = Sort_insert x (Sort xs)"

text \<open>\<^verbatim>\<open>func kvTo(kv KV) kvL\<close>\<close>

definition kvTo :: "KV \<Rightarrow> kvL" where
  "kvTo kv = Sort (map (\<lambda>p. \<lparr>K = fst p, V = snd p\<rparr>) (entries kv))"

text \<open>\<^verbatim>\<open>func kvNormalize(kvs ...KV) kvL\<close>\<close>

definition kvNormalize :: "KV list \<Rightarrow> kvL" where
  "kvNormalize kvs = kvTo (Merge kvs)"

section \<open>Entries and their output (llog.go, lines 178-234)\<close>

text \<open>
  A channel is identified by a number; \<open>blockCh\<close> is \<open>None\<close> for \<^verbatim>\<open>nil\<close>.
\<close>

record entry =
  level :: Level
  msg :: string
  kv :: kvL
  blockCh :: "nat option"

definition prefix_bytes :: string where "prefix_bytes = ''~ ''"
definition separator :: string where "separator = '' --''"
definition separatorSpace :: string where "separatorSpace = separator @ '' ''"
definition tsPrefix :: string where "tsPrefix = ''[''"
definition tsSuffix :: string where "tsSuffix = ''] ''"
definition space :: string where "space = '' ''"
definition equals :: string where "equals = ''=''"
definition newline :: string where "newline = [CHR 0x0A]"

text \<open>
  An \<^verbatim>\<open>io.Writer\<close> is an object with a \<^verbatim>\<open>Write\<close> method that may fail. The model of
  such an object records the bytes it has accepted and the number of \<^verbatim>\<open>Write\<close> calls
  it has received; \<open>wfail\<close> is its behaviour: whether the call with a given number and
  argument fails, and if so after how many bytes and with which error. \<open>has_Sync\<close> and
  \<open>has_Flush\<close> say whether the object's type has a method \<^verbatim>\<open>Sync()\<close> or \<^verbatim>\<open>Flush()\<close>
  (the interfaces \<^verbatim>\<open>syncer\<close> and \<^verbatim>\<open>flusher\<close>); the calls of these are counted.
\<close>

datatype io_error = IOError string

fun Error_text :: "io_error \<Rightarrow> string" where
  "Error_text (IOError m) = m"

record sink =
  written :: string
  calls :: nat
  wfail :: "nat \<Rightarrow> string \<Rightarrow> (nat \<times> io_error) option"
  has_Sync :: bool
  has_Flush :: bool
  Sync_calls :: nat
  Flush_calls :: nat

definition Write :: "sink \<Rightarrow> string \<Rightarrow> sink \<times> io_error option" where
  "Write w b =
     (case wfail w (calls w) b of
        None \<Rightarrow> (w\<lparr>written := written w @ b, calls := Suc (calls w)\<rparr>, None)
      | Some (n, err) \<Rightarrow> (w\<lparr>written := written w @ take n b, calls := Suc (calls w)\<rparr>, Some err))"

text \<open>
  \<^verbatim>\<open>func writeHelper(b []byte, w io.Writer, lastErr error) error\<close>. The writer is
  mutated by the call, so the model takes and returns it together with the error.
\<close>

fun writeHelper :: "string \<Rightarrow> sink \<times> io_error option \<Rightarrow> sink \<times> io_error option" where
  "writeHelper b (w, lastErr) = (if lastErr \<noteq> None then (w, lastErr) else Write w b)"

text \<open>The body of the loop over \<^verbatim>\<open>e.kv\<close> in \<^verbatim>\<open>printOut\<close>.\<close>

fun printPairs :: "kvL \<Rightarrow> sink \<times> io_error option \<Rightarrow> sink \<times> io_error option" where
  "printPairs [] p = p"
| "printPairs (kve # rest) p =
     (let p = writeHelper space p;
          p = writeHelper (K kve) p;
          p = writeHelper equals p;
          vstr = Sprint (V kve);
          vstr = Replace vstr dquote squote;
          vstr = QuoteToASCII vstr;
          p = writeHelper vstr p
      in printPairs rest p)"

text \<open>
  \<^verbatim>\<open>func (e entry) printOut(w io.Writer, displayTS bool) error\<close>. \<open>now\<close> is the text
  \<^verbatim>\<open>time.Now().String()\<close> returns when it is called.
\<close>

definition printOut :: "entry \<Rightarrow> sink \<Rightarrow> bool \<Rightarrow> string \<Rightarrow> sink \<times> io_error option" where
  "printOut e w displayTS now =
     (let p = writeHelper prefix_bytes (w, None);
          p = (if displayTS
               then writeHelper tsSuffix (writeHelper now (writeHelper tsPrefix p))
               else p);
          p = writeHelper (Level_String (level e)) p;
          p = writeHelper separatorSpace p;
          p = writeHelper (msg e) p;
          p = (if length (kv e) > 0
               then printPairs (kv e) (writeHelper separator p)
               else p)
      in writeHelper newline p)"

text \<open>
  A buffer that accepts every write (\<^verbatim>\<open>bytes.Buffer\<close>), empty; and the line an entry
  is formatted to: what \<open>printOut\<close> leaves in such a buffer.
\<close>

definition emptyBuffer :: sink where
  "emptyBuffer = \<lparr>written = [], calls = 0, wfail = (\<lambda>n b. None),
     has_Sync = False, has_Flush = False, Sync_calls = 0, Flush_calls = 0\<rparr>"

definition formatted :: "entry \<Rightarrow> bool \<Rightarrow> string \<Rightarrow> string" where
  "formatted e displayTS now = written (fst (printOut e emptyBuffer displayTS now))"

text \<open>A writer none of whose \<^verbatim>\<open>Write\<close> calls fails.\<close>

definition accepts :: "sink \<Rightarrow> bool" where
  "accepts w = (\<forall>n b. wfail w n b = None)"

text \<open>
  The byte slices \<open>printOut\<close> hands to \<open>writeHelper\<close>, in order; \<open>printOut_fold\<close> below
  shows that \<open>printOut\<close> is the fold of \<open>writeHelper\<close> over them.
\<close>

definition pair_chunks :: "kvE \<Rightarrow> string list" where
  "pair_chunks kve =
     [space, K kve, equals, QuoteToASCII (Replace (Sprint (V kve)) dquote squote)]"

definition chunks :: "entry \<Rightarrow> bool \<Rightarrow> string \<Rightarrow> string list" where
  "chunks e displayTS now =
     [prefix_bytes] @ (if displayTS then [tsPrefix, now, tsSuffix] else [])
     @ [Level_String (level e), separatorSpace, msg e]
     @ (if kv e \<noteq> [] then separator # concat (map pair_chunks (kv e)) else [])
     @ [newline]"

section \<open>The process state and the relay (llog.go, lines 36-46, 76-91, 236-284)\<close>

text \<open>
  The package variables and what they refer to. Writers are objects: \<open>heap\<close> maps an
  address to the object there, \<open>Out\<close> holds an address, and \<open>defaultOut\<close> is the address
  of \<^verbatim>\<open>os.Stdout\<close>, so that \<^verbatim>\<open>Out != defaultOut\<close> compares addresses and a write
  through \<open>Out\<close> is seen through \<open>defaultOut\<close> when they are equal. \<open>clock\<close> and \<open>tick\<close>
  give \<^verbatim>\<open>time.Now().String()\<close>: the call number \<open>tick\<close> returns \<open>clock tick\<close>.
  \<open>nextCh\<close> numbers the channels \<^verbatim>\<open>make\<close> creates and \<open>closed\<close> holds the closed ones.
  \<open>received\<close> is the history of the entries the relay goroutine has received from
  \<^verbatim>\<open>entryCh\<close>; nothing reads it.
\<close>

record state =
  currLevel :: Level
  Out :: nat
  DisplayTimestamp :: bool
  heap :: "nat \<Rightarrow> sink"
  clock :: "nat \<Rightarrow> string"
  tick :: nat
  nextCh :: nat
  closed :: "nat set"
  received :: "entry list"

definition defaultOut :: nat where "defaultOut = 0"

text \<open>\<^verbatim>\<open>func GetLevel() Level\<close> and \<^verbatim>\<open>func SetLevel(l Level)\<close>\<close>

definition GetLevel :: "state \<Rightarrow> Level" where
  "GetLevel st = currLevel st"

definition SetLevel :: "Level \<Rightarrow> state \<Rightarrow> state" where
  "SetLevel l st = st\<lparr>currLevel := l\<rparr>"

text \<open>
  \<^verbatim>\<open>strings.ToUpper\<close>: on a string of ASCII bytes the letters \<open>a..z\<close> are replaced by
  \<open>A..Z\<close>; on any other string the result is \<^verbatim>\<open>Map(unicode.ToUpper, s)\<close>, which depends
  on the Unicode tables and is the parameter \<open>uc\<close>.
\<close>

definition upper_byte :: "char \<Rightarrow> char" where
  "upper_byte c = (if CHR ''a'' \<le> c \<and> c \<le> CHR ''z'' then char_of (of_char c - (32::nat)) else c)"

definition ToUpper :: "(string \<Rightarrow> string) \<Rightarrow> string \<Rightarrow> string" where
  "ToUpper uc s = (if list_all (\<lambda>c. of_char c < (0x80::nat)) s then map upper_byte s else uc s)"

text \<open>
  \<^verbatim>\<open>func SetLevelFromString(ls string) error\<close>. The error
  \<^verbatim>\<open>fmt.Errorf("unknown log level %q", ls)\<close> is the value \<open>UnknownLogLevel ls\<close>.
\<close>

datatype level_error = UnknownLogLevel string

definition SetLevelFromString ::
  "(string \<Rightarrow> string) \<Rightarrow> string \<Rightarrow> state \<Rightarrow> level_error option \<times> state" where
  "SetLevelFromString uc ls st =
     (let u = ToUpper uc ls in
      if u = ''DEBUG'' then (None, SetLevel DebugLevel st)
      else if u = ''INFO'' then (None, SetLevel InfoLevel st)
      else if u = ''WARN'' then (None, SetLevel WarnLevel st)
      else if u = ''ERROR'' then (None, SetLevel ErrorLevel st)
      else if u = ''FATAL'' then (None, SetLevel FatalLevel st)
      else (Some (UnknownLogLevel ls), st))"

text \<open>
  \<^verbatim>\<open>e.printOut(w, displayTS)\<close> for the writer at address \<open>a\<close>: the clock is read when
  \<open>displayTS\<close> holds.
\<close>

definition printOut_at :: "entry \<Rightarrow> nat \<Rightarrow> bool \<Rightarrow> state \<Rightarrow> state \<times> io_error option" where
  "printOut_at e a displayTS st =
     (let r = printOut e (heap st a) displayTS (clock st (tick st))
      in (st\<lparr>heap := (heap st)(a := fst r),
              tick := (if displayTS then Suc (tick st) else tick st)\<rparr>, snd r))"

text \<open>
  The body of the relay's loop \<^verbatim>\<open>for e := range entryCh\<close>, statement by statement:
  the write to \<open>Out\<close>; the fallback to \<open>defaultOut\<close>; the flush of a fatal entry; the
  close of \<open>blockCh\<close>.
\<close>

definition relay_print :: "entry \<Rightarrow> state \<Rightarrow> state \<times> io_error option" where
  "relay_print e st = printOut_at e (Out st) (DisplayTimestamp st) st"

definition erre :: "io_error \<Rightarrow> entry" where
  "erre err = \<lparr>level = ErrorLevel, msg = ''Could not write to error Out'',
     kv = kvTo (Some [(''err'', VError (Error_text err))]), blockCh = None\<rparr>"

definition relay_fallback :: "entry \<Rightarrow> io_error option \<Rightarrow> state \<Rightarrow> state" where
  "relay_fallback e err st =
     (case err of
        None \<Rightarrow> st
      | Some er \<Rightarrow>
          if Out st \<noteq> defaultOut
          then (let st = fst (printOut_at (erre er) defaultOut (DisplayTimestamp st) st);
                    st = fst (printOut_at e defaultOut (DisplayTimestamp st) st)
                in st)
          else st)"

definition Sync :: "sink \<Rightarrow> sink" where
  "Sync w = w\<lparr>Sync_calls := Suc (Sync_calls w)\<rparr>"

definition Flush :: "sink \<Rightarrow> sink" where
  "Flush w = w\<lparr>Flush_calls := Suc (Flush_calls w)\<rparr>"

definition relay_flush :: "entry \<Rightarrow> state \<Rightarrow> state" where
  "relay_flush e st =
     (if level e = FatalLevel
      then (if has_Sync (heap st (Out st))
            then st\<lparr>heap := (heap st)(Out st := Sync (heap st (Out st)))\<rparr>
            else if has_Flush (heap st (Out st))
            then st\<lparr>heap := (heap st)(Out st := Flush (heap st (Out st)))\<rparr>
            else st)
      else st)"

definition relay_signal :: "entry \<Rightarrow> state \<Rightarrow> state" where
  "relay_signal e st =
     (case blockCh e of None \<Rightarrow> st | Some c \<Rightarrow> st\<lparr>closed := insert c (closed st)\<rparr>)"

definition relay_body :: "entry \<Rightarrow> state \<Rightarrow> state" where
  "relay_body e st =
     (let r = relay_print e st;
          st = relay_fallback e (snd r) (fst r);
          st = relay_flush e st
      in relay_signal e st)"

section \<open>The emit functions (llog.go, lines 286-337)\<close>

text \<open>
  The effect of a call when no other goroutine logs at the same time: the send
  \<^verbatim>\<open>entryCh <- e\<close> hands the entry to the relay goroutine, which runs its loop body on
  it. (The interleaving with the relay and with other goroutines is the subject of the
  transition system of the next section.)
\<close>

definition send :: "entry \<Rightarrow> state \<Rightarrow> state" where
  "send e st = relay_body e (st\<lparr>received := received st @ [e]\<rparr>)"

definition logEntry :: "Level \<Rightarrow> string \<Rightarrow> KV list \<Rightarrow> nat option \<Rightarrow> state \<Rightarrow> state" where
  "logEntry l m kvs bch st =
     (if l \<ge> GetLevel st
      then send \<lparr>level = l, msg = m, kv = kvNormalize kvs, blockCh = bch\<rparr> st
      else st)"

definition Debug :: "string \<Rightarrow> KV list \<Rightarrow> state \<Rightarrow> state" where
  "Debug m kvs st = logEntry DebugLevel m kvs None st"

definition Info :: "string \<Rightarrow> KV list \<Rightarrow> state \<Rightarrow> state" where
  "Info m kvs st = logEntry InfoLevel m kvs None st"

definition Warn :: "string \<Rightarrow> KV list \<Rightarrow> state \<Rightarrow> state" where
  "Warn m kvs st = logEntry WarnLevel m kvs None st"

definition Error :: "string \<Rightarrow> KV list \<Rightarrow> state \<Rightarrow> state" where
  "Error m kvs st = logEntry ErrorLevel m kvs None st"

text \<open>
  \<^verbatim>\<open>make(chan struct{})\<close>: a new channel, which is open. \<^verbatim>\<open>func Fatal\<close> receives from
  the channel after \<open>logEntry\<close>: the receive returns when the channel is closed, and
  then \<^verbatim>\<open>os.Exit(1)\<close> ends the process; while the channel is open the call stays
  blocked, and it does not return in either case. With the caller blocked in its
  receive the relay is blocked too, in its receive from \<^verbatim>\<open>entryCh\<close>. A process none of
  whose goroutines can run is ended by the Go runtime
  (\<^verbatim>\<open>fatal error: all goroutines are asleep - deadlock!\<close>, exit status 2); \<open>others\<close> says
  whether the program has another goroutine that can still run, in which case the
  process stays as it is. \<open>exit_status\<close> is the status a process has ended with, if it
  has ended.
\<close>

definition make_chan :: "state \<Rightarrow> nat \<times> state" where
  "make_chan st = (nextCh st, st\<lparr>nextCh := Suc (nextCh st), closed := closed st - {nextCh st}\<rparr>)"

datatype outcome = Exit int state | Deadlock state | Blocked state

definition Fatal :: "string \<Rightarrow> KV list \<Rightarrow> bool \<Rightarrow> state \<Rightarrow> outcome" where
  "Fatal m kvs others st =
     (let r = make_chan st;
          st = logEntry FatalLevel m kvs (Some (fst r)) (snd r)
      in if fst r \<in> closed st then Exit 1 st
         else if others then Blocked st
         else Deadlock st)"

fun exit_status :: "outcome \<Rightarrow> int option" where
  "exit_status (Exit n st) = Some n"
| "exit_status (Deadlock st) = Some 2"
| "exit_status (Blocked st) = None"

section \<open>A call of Fatal beside the relay goroutine\<close>

text \<open>
  The goroutine that calls \<^verbatim>\<open>Fatal(msg, kv...)\<close> and the relay goroutine, step by step.
  The caller is before the call (\<open>C_call\<close>), blocked in the send \<^verbatim>\<open>entryCh <- e\<close> holding
  its channel (\<open>C_send\<close>), blocked in the receive \<^verbatim>\<open><-blockCh\<close> (\<open>C_wait\<close>), or has run
  \<^verbatim>\<open>os.Exit\<close> (\<open>C_exited\<close>). The relay is blocked in \<^verbatim>\<open>range entryCh\<close> (\<open>R_recv\<close>) or is
  before one of the four statements of its loop body, for the entry it has received.
  \<open>trace\<close> records the statements of the loop body as they complete, and the exit.
  The system has the steps of the program's goroutines; the runtime's end of a process
  whose goroutines are all blocked is part of the function \<open>Fatal\<close> above, not of it.
\<close>

datatype caller_pc = C_call | C_send entry nat | C_wait nat | C_exited int

datatype relay_pc =
  R_recv | R_print entry | R_fallback entry "io_error option" | R_flush entry | R_signal entry

datatype event =
  Ev_print entry | Ev_fallback entry | Ev_flush entry | Ev_signal entry | Ev_exit int

record config =
  cstate :: state
  caller :: caller_pc
  relay :: relay_pc
  trace :: "event list"

definition start :: "state \<Rightarrow> config" where
  "start st = \<lparr>cstate = st, caller = C_call, relay = R_recv, trace = []\<rparr>"

text \<open>The entry \<open>logEntry\<close> builds for \<^verbatim>\<open>Fatal(m, kvs...)\<close> with the channel \<open>c\<close>.\<close>

definition fatal_entry :: "string \<Rightarrow> KV list \<Rightarrow> nat \<Rightarrow> entry" where
  "fatal_entry m kvs c = \<lparr>level = FatalLevel, msg = m, kv = kvNormalize kvs, blockCh = Some c\<rparr>"

text \<open>After \<^verbatim>\<open>os.Exit\<close> no goroutine runs.\<close>

definition alive :: "config \<Rightarrow> bool" where
  "alive cf = (case caller cf of C_exited n \<Rightarrow> False | _ \<Rightarrow> True)"

text \<open>
  The steps. \<open>call\<close>: \<^verbatim>\<open>make(chan struct{})\<close> and, in \<open>logEntry\<close>, the test of the level;
  the caller goes on to the send, or, the entry suppressed, directly to the receive.
  \<open>handoff\<close>: the send meets the relay's receive (the channel has no buffer). \<open>other\<close>:
  the relay receives an entry from another goroutine, which is in \<open>Debug\<close>, \<open>Info\<close>, \<open>Warn\<close>
  or \<open>Error\<close>, so that the entry has no channel. \<open>print\<close>, \<open>fallback\<close>, \<open>flush\<close>,
  \<open>signal\<close>: the statements of the relay's loop body. \<open>wake\<close>: the receive from the
  closed channel returns and \<^verbatim>\<open>os.Exit(1)\<close> runs.
\<close>

inductive step :: "string \<Rightarrow> KV list \<Rightarrow> config \<Rightarrow> config \<Rightarrow> bool" for m :: string and kvs :: "KV list" where
  call: "caller cf = C_call \<Longrightarrow>
     step m kvs cf (cf\<lparr>cstate := snd (make_chan (cstate cf)),
        caller := (if FatalLevel \<ge> GetLevel (cstate cf)
                   then C_send (fatal_entry m kvs (fst (make_chan (cstate cf))))
                          (fst (make_chan (cstate cf)))
                   else C_wait (fst (make_chan (cstate cf))))\<rparr>)"
| handoff: "caller cf = C_send e c \<Longrightarrow> relay cf = R_recv \<Longrightarrow>
     step m kvs cf (cf\<lparr>cstate := (cstate cf)\<lparr>received := received (cstate cf) @ [e]\<rparr>,
        caller := C_wait c, relay := R_print e\<rparr>)"
| other: "alive cf \<Longrightarrow> relay cf = R_recv \<Longrightarrow> blockCh e = None \<Longrightarrow>
     step m kvs cf (cf\<lparr>cstate := (cstate cf)\<lparr>received := received (cstate cf) @ [e]\<rparr>,
        relay := R_print e\<rparr>)"
| print: "alive cf \<Longrightarrow> relay cf = R_print e \<Longrightarrow>
     step m kvs cf (cf\<lparr>cstate := fst (relay_print e (cstate cf)),
        relay := R_fallback e (snd (relay_print e (cstate cf))),
        trace := trace cf @ [Ev_print e]\<rparr>)"
| fallback: "alive cf \<Longrightarrow> relay cf = R_fallback e err \<Longrightarrow>
     step m kvs cf (cf\<lparr>cstate := relay_fallback e err (cstate cf),
        relay := R_flush e, trace := trace cf @ [Ev_fallback e]\<rparr>)"
| flush: "alive cf \<Longrightarrow> relay cf = R_flush e \<Longrightarrow>
     step m kvs cf (cf\<lparr>cstate := relay_flush e (cstate cf),
        relay := R_signal e, trace := trace cf @ [Ev_flush e]\<rparr>)"
| signal: "alive cf \<Longrightarrow> relay cf = R_signal e \<Longrightarrow>
     step m kvs cf (cf\<lparr>cstate := relay_signal e (cstate cf),
        relay := R_recv, trace := trace cf @ [Ev_signal e]\<rparr>)"
| wake: "caller cf = C_wait c \<Longrightarrow> c \<in> closed (cstate cf) \<Longrightarrow>
     step m kvs cf (cf\<lparr>caller := C_exited 1, trace := trace cf @ [Ev_exit 1]\<rparr>)"


fun busy_free :: "relay_pc \<Rightarrow> bool" where
  "busy_free R_recv = True"
| "busy_free (R_print e) = (blockCh e = None)"
| "busy_free (R_fallback e err) = (blockCh e = None)"
| "busy_free (R_flush e) = (blockCh e = None)"
| "busy_free (R_signal e) = (blockCh e = None)"



text \<open>
  The package's state when the program starts: the level is \<^verbatim>\<open>InfoLevel\<close>, \<open>Out\<close> is
  \<^verbatim>\<open>os.Stdout\<close>, no timestamp is displayed. Standard output is taken to accept every
  write here.
\<close>

definition init_state :: state where
  "init_state = \<lparr>currLevel = InfoLevel, Out = defaultOut, DisplayTimestamp = False,
     heap = (\<lambda>a. emptyBuffer), clock = (\<lambda>n. []), tick = 0, nextCh = 0, closed = {},
     received = []\<rparr>"

text \<open>
  Two other states, for the examples: in \<open>sync_flush_state\<close> every writer has both a
  \<^verbatim>\<open>Sync\<close> and a \<^verbatim>\<open>Flush\<close> method; in \<open>failing_state\<close> the variable \<open>Out\<close> refers to a
  writer other than standard output, every \<^verbatim>\<open>Write\<close> of which fails.
\<close>

definition sync_flush_state :: state where
  "sync_flush_state = init_state\<lparr>heap := (\<lambda>a. emptyBuffer\<lparr>has_Sync := True, has_Flush := True\<rparr>)\<rparr>"

definition failing_state :: state where
  "failing_state = init_state\<lparr>Out := 1,
     heap := (\<lambda>a. if a = defaultOut then emptyBuffer
                  else emptyBuffer\<lparr>wfail := (\<lambda>n b. Some (0, IOError ''closed''))\<rparr>)\<rparr>"

section \<open>The line grammar as the specification words it\<close>

text \<open>
  The specification gives the line as
  \<^verbatim>\<open>"~ " [ "[" timestamp "] " ] LEVEL-NAME " --" { " " key "=" quoted-value } "\n"\<close>.
  \<open>spec_grammar_line\<close> is that line for an entry, to be compared with \<open>formatted\<close>;
  \<open>occurrences pat s\<close> counts the positions of \<open>s\<close> where \<open>pat\<close> starts.
\<close>

definition spec_grammar_line :: "entry \<Rightarrow> bool \<Rightarrow> string \<Rightarrow> string" where
  "spec_grammar_line e displayTS now =
     ''~ '' @ (if displayTS then ''['' @ now @ ''] '' else [])
     @ Level_String (level e) @ '' --''
     @ concat (map (\<lambda>kve. '' '' @ K kve @ ''=''
                      @ QuoteToASCII (Replace (Sprint (V kve)) dquote squote)) (kv e))
     @ [CHR 0x0A]"

fun occurrences :: "string \<Rightarrow> string \<Rightarrow> nat" where
  "occurrences pat [] = 0"
| "occurrences pat (c # cs) =
     (if take (length pat) (c # cs) = pat then 1 else 0) + occurrences pat cs"

text \<open>
  The bytes a safe-ASCII quotation may hold between its quotes: printable ASCII
  (\<open>0x20..0x7E\<close>) other than the double quote.
\<close>

definition safe_byte :: "char \<Rightarrow> bool" where
  "safe_byte c = ((0x20::nat) \<le> of_char c \<and> of_char c \<le> (0x7E::nat) \<and> c \<noteq> dquote)"

section \<open>Properties\<close>

lemmas Level_defs = DebugLevel_def InfoLevel_def WarnLevel_def ErrorLevel_def FatalLevel_def

lemmas byte_consts = prefix_bytes_def separator_def separatorSpace_def tsPrefix_def
  tsSuffix_def space_def equals_def newline_def

subsection \<open>What \<open>printOut\<close> writes\<close>

lemma printPairs_fold: "printPairs kvs p = fold writeHelper (concat (map pair_chunks kvs)) p"
  by (induction kvs arbitrary: p) (simp_all add: pair_chunks_def Let_def)

lemma printOut_fold:
  "printOut e w displayTS now = fold writeHelper (chunks e displayTS now) (w, None)"
  by (simp add: printOut_def chunks_def printPairs_fold Let_def)

lemma Write_accepts:
  "accepts w \<Longrightarrow> Write w b = (w\<lparr>written := written w @ b, calls := Suc (calls w)\<rparr>, None)"
  by (simp add: Write_def accepts_def)

lemma accepts_update [simp]: "accepts (w\<lparr>written := x, calls := n\<rparr>) = accepts w"
  by (simp add: accepts_def)

lemma fold_writeHelper_accepts:
  "accepts w \<Longrightarrow> fold writeHelper cs (w, None)
     = (w\<lparr>written := written w @ concat cs, calls := calls w + length cs\<rparr>, None)"
proof (induction cs arbitrary: w)
  case Nil
  then show ?case by simp
next
  case (Cons c cs)
  have "fold writeHelper (c # cs) (w, None)
      = fold writeHelper cs (w\<lparr>written := written w @ c, calls := Suc (calls w)\<rparr>, None)"
    using Cons.prems by (simp add: Write_accepts)
  also have "\<dots> = (w\<lparr>written := written w @ concat (c # cs),
                       calls := calls w + length (c # cs)\<rparr>, None)"
    using Cons.prems by (subst Cons.IH) simp_all
  finally show ?case .
qed

lemma fold_writeHelper_failed: "fold writeHelper cs (w, Some err) = (w, Some err)"
  by (induction cs) simp_all

lemma accepts_emptyBuffer: "accepts emptyBuffer"
  by (simp add: accepts_def emptyBuffer_def)

lemma formatted_chunks: "formatted e displayTS now = concat (chunks e displayTS now)"
  by (simp add: formatted_def printOut_fold fold_writeHelper_accepts accepts_emptyBuffer)
     (simp add: emptyBuffer_def)

lemma printOut_accepts:
  "accepts w \<Longrightarrow> printOut e w displayTS now
     = (w\<lparr>written := written w @ formatted e displayTS now,
          calls := calls w + length (chunks e displayTS now)\<rparr>, None)"
  by (simp add: printOut_fold fold_writeHelper_accepts formatted_chunks)

lemma concat_pair_chunks:
  "concat (concat (map pair_chunks kvs))
     = concat (map (\<lambda>kve. '' '' @ K kve @ ''=''
                      @ QuoteToASCII (Replace (Sprint (V kve)) dquote squote)) kvs)"
  by (induction kvs) (simp_all add: pair_chunks_def space_def equals_def)

text \<open>
  C1 (as amended). The line an entry is formatted to is
  \<^verbatim>\<open>"~ " [ "[" timestamp "] " ] LEVEL-NAME " -- " message [ " --" { " " key "=" quoted-value } ] "\n"\<close>:
  the marker, followed by a space, comes once after the level name, also when the entry
  has no attributes, and is followed by the message; a second marker precedes the
  attribute pairs exactly when the attribute list is not empty; the loop over the pairs
  writes no marker.
\<close>

theorem printOut_line_format:
  "formatted e displayTS now =
     ''~ '' @ (if displayTS then ''['' @ now @ ''] '' else [])
     @ Level_String (level e) @ '' -- '' @ msg e
     @ (if kv e = [] then []
        else '' --'' @ concat (map (\<lambda>kve. '' '' @ K kve @ ''=''
                      @ QuoteToASCII (Replace (Sprint (V kve)) dquote squote)) (kv e)))
     @ [CHR 0x0A]"
  by (simp add: formatted_chunks chunks_def concat_pair_chunks prefix_bytes_def
      separator_def separatorSpace_def tsPrefix_def tsSuffix_def newline_def)

text \<open>
  C1 as the specification states it fails: an entry without attributes is not formatted
  to the line of the specification's grammar (the message follows the marker), and in
  the line of an entry with one attribute the marker occurs twice.
\<close>

theorem spec_grammar_line_counterexample:
  "formatted \<lparr>level = InfoLevel, msg = ''bar'', kv = [], blockCh = None\<rparr> False []
     \<noteq> spec_grammar_line \<lparr>level = InfoLevel, msg = ''bar'', kv = [], blockCh = None\<rparr> False []
   \<and> occurrences '' --''
        (formatted \<lparr>level = ErrorLevel, msg = ''buz'',
                     kv = kvNormalize [Some [(''a'', VString ''b'')]], blockCh = None\<rparr> False []) = 2"
  by code_simp

subsection \<open>Attribute sets\<close>

lemma map_of_assign: "map_of (assign k v m) = (map_of m)(k \<mapsto> v)"
  by (induction m) (auto simp: fun_eq_iff)

lemma keys_assign: "fst ` set (assign k v m) = insert k (fst ` set m)"
  by (induction m) auto

lemma distinct_assign: "distinct (map fst m) \<Longrightarrow> distinct (map fst (assign k v m))"
proof (induction m)
  case Nil
  then show ?case by simp
next
  case (Cons p m)
  have "fst ` set (assign k v m) = insert k (fst ` set m)" by (rule keys_assign)
  with Cons show ?case by auto
qed

lemma distinct_assign_all:
  "distinct (map fst dst) \<Longrightarrow> distinct (map fst (assign_all src dst))"
  by (induction src arbitrary: dst) (simp_all add: distinct_assign)

lemma keys_assign_all: "fst ` set (assign_all src dst) = fst ` set src \<union> fst ` set dst"
  by (induction src arbitrary: dst) (auto simp: keys_assign)

lemma map_of_assign_all:
  "distinct (map fst src) \<Longrightarrow> map_of (assign_all src dst) = map_of dst ++ map_of src"
proof (induction src arbitrary: dst)
  case Nil
  then show ?case by simp
next
  case (Cons p src)
  obtain k v where p: "p = (k, v)" by (cases p)
  from Cons.prems p have notin: "map_of src k = None"
    by (simp add: map_of_eq_None_iff)
  have "map_of (assign_all (p # src) dst) = (map_of dst)(k \<mapsto> v) ++ map_of src"
    using Cons p by (simp add: map_of_assign)
  also have "\<dots> = map_of dst ++ map_of (p # src)"
    using notin p by (auto simp: fun_eq_iff map_add_def split: option.splits)
  finally show ?case .
qed

lemma lookup_eq: "lookup x = map_of (entries x)"
  by (simp add: fun_eq_iff lookup_def)

lemma lookup_Merge_loop:
  "list_all wf_KV kvs \<Longrightarrow>
     map_of (Merge_loop kvs acc) = foldl (++) (map_of acc) (map lookup kvs)"
proof (induction kvs arbitrary: acc)
  case Nil
  then show ?case by simp
next
  case (Cons kvi kvs)
  then have "distinct (map fst (entries kvi))" by (simp add: wf_KV_def)
  then have "map_of (assign_all (entries kvi) acc) = map_of acc ++ lookup kvi"
    by (simp add: map_of_assign_all lookup_eq)
  with Cons.IH [of "assign_all (entries kvi) acc"] Cons.prems show ?case by simp
qed

lemma foldl_map_add_rightmost:
  "foldl (++) m0 ms k =
     (case filter (\<lambda>m. m k \<noteq> None) (rev ms) of [] \<Rightarrow> m0 k | m # _ \<Rightarrow> m k)"
  by (induction ms rule: rev_induct) (auto simp: map_add_def split: option.splits list.splits)

lemma rightmost_map_lookup:
  "(case filter (\<lambda>m. m k \<noteq> None) (map lookup xs) of [] \<Rightarrow> None | m # _ \<Rightarrow> m k)
     = (case filter (\<lambda>x. lookup x k \<noteq> None) xs of [] \<Rightarrow> None | x # _ \<Rightarrow> lookup x k)"
  by (induction xs) auto

lemma keys_Merge_loop:
  "fst ` set (Merge_loop kvs acc) = fst ` set acc \<union> (\<Union>x\<in>set kvs. fst ` set (entries x))"
  by (induction kvs arbitrary: acc) (auto simp: keys_assign_all)

lemma distinct_Merge_loop:
  "distinct (map fst acc) \<Longrightarrow> distinct (map fst (Merge_loop kvs acc))"
  by (induction kvs arbitrary: acc) (simp_all add: distinct_assign_all)

text \<open>
  C9. \<open>Merge\<close> returns a table (never \<^verbatim>\<open>nil\<close>) whose keys are the union of the keys
  of the arguments, and the value of a key is its value in the rightmost argument that
  has the key; \<open>Merge\<close> of no arguments is the empty table. (The arguments are Go maps:
  no key occurs twice in one of them.)
\<close>

theorem Merge_right_biased_union:
  assumes "list_all wf_KV kvs"
  shows "Merge kvs \<noteq> None \<and> wf_KV (Merge kvs)
       \<and> fst ` set (entries (Merge kvs)) = (\<Union>x\<in>set kvs. fst ` set (entries x))
       \<and> lookup (Merge kvs) k =
           (case filter (\<lambda>x. lookup x k \<noteq> None) (rev kvs) of
              [] \<Rightarrow> None
            | x # _ \<Rightarrow> lookup x k)
       \<and> Merge [] = Some []"
proof -
  have "lookup (Merge kvs) k = foldl (++) Map.empty (map lookup kvs) k"
    using assms lookup_Merge_loop [of kvs "[]"] by (simp add: Merge_def lookup_def entries_def)
  also have "\<dots> = (case filter (\<lambda>x. lookup x k \<noteq> None) (rev kvs) of
              [] \<Rightarrow> None | x # _ \<Rightarrow> lookup x k)"
    unfolding foldl_map_add_rightmost rev_map by (rule rightmost_map_lookup)
  finally have look: "lookup (Merge kvs) k = (case filter (\<lambda>x. lookup x k \<noteq> None) (rev kvs) of
              [] \<Rightarrow> None | x # _ \<Rightarrow> lookup x k)" .
  have wf: "wf_KV (Merge kvs)"
    by (simp add: wf_KV_def Merge_def entries_def distinct_Merge_loop)
  have keys: "fst ` set (entries (Merge kvs)) = (\<Union>x\<in>set kvs. fst ` set (entries x))"
    by (simp add: Merge_def entries_def keys_Merge_loop)
  show ?thesis using look wf keys by (simp add: Merge_def)
qed

theorem Merge_right_biased_union_witness:
  "list_all wf_KV [Some [(''a'', VInt 1), (''b'', VInt 2)], None, Some [(''a'', VInt 3)]]
   \<and> lookup (Merge [Some [(''a'', VInt 1), (''b'', VInt 2)], None, Some [(''a'', VInt 3)]]) ''a''
       = Some (VInt 3)
   \<and> lookup (Merge [Some [(''a'', VInt 1), (''b'', VInt 2)], None, Some [(''a'', VInt 3)]]) ''b''
       = Some (VInt 2)
   \<and> Merge [Some [(''a'', VInt 1), (''b'', VInt 2)], None, Some [(''a'', VInt 3)]] \<noteq> None"
proof -
  have h: "list_all wf_KV [Some [(''a'', VInt 1), (''b'', VInt 2)], None, Some [(''a'', VInt 3)]]"
    by (simp add: wf_KV_def entries_def)
  show ?thesis
    using h Merge_right_biased_union [OF h, of "''a''"] Merge_right_biased_union [OF h, of "''b''"]
    by (simp add: lookup_def entries_def)
qed

subsection \<open>Sorting the attributes\<close>

lemma set_Sort_insert: "set (Sort_insert x xs) = insert x (set xs)"
  by (induction xs) auto

lemma set_Sort: "set (Sort xs) = set xs"
  by (induction xs) (simp_all add: set_Sort_insert)

lemma mset_Sort_insert: "mset (Sort_insert x xs) = add_mset x (mset xs)"
  by (induction xs) auto

lemma mset_Sort: "mset (Sort xs) = mset xs"
  by (induction xs) (simp_all add: mset_Sort_insert)

lemma sorted_Sort_insert:
  "sorted_wrt (\<lambda>a b. \<not> Less b a) xs \<Longrightarrow> sorted_wrt (\<lambda>a b. \<not> Less b a) (Sort_insert x xs)"
  by (induction xs) (auto simp: set_Sort_insert Less_def)

lemma sorted_Sort: "sorted_wrt (\<lambda>a b. \<not> Less b a) (Sort xs)"
  by (induction xs) (simp_all add: sorted_Sort_insert)

lemma strictly_sorted_keys:
  assumes "sorted_wrt (\<lambda>a b. \<not> Less b a) ys" and "distinct (map K ys)"
  shows "sorted_wrt (\<lambda>a b. K a < K b) ys"
  using assms
proof (induction ys)
  case Nil
  then show ?case by simp
next
  case (Cons a ys)
  have "K a < K x" if "x \<in> set ys" for x
  proof -
    have "K a \<le> K x" using Cons.prems(1) that by (auto simp: Less_def not_less)
    moreover have "K a \<noteq> K x" using Cons.prems(2) that by auto
    ultimately show ?thesis by simp
  qed
  with Cons show ?case by simp
qed

lemma sorted_keys_unique:
  assumes xs: "sorted_wrt (\<lambda>a b. K a < K b) xs"
    and ys: "sorted_wrt (\<lambda>a b. K a < K b) ys"
    and same: "set xs = set ys"
  shows "xs = ys"
proof -
  have sx: "sorted_wrt (<) (map K xs)" and sy: "sorted_wrt (<) (map K ys)"
    using xs ys by (simp_all add: sorted_wrt_map)
  have "set (map K ys) = set (map K xs)" using same by simp
  with sx sy have keys: "map K ys = map K xs" by (rule strict_sorted_equal)
  have "distinct (map K xs)" using sx by (simp add: strict_sorted_iff)
  then have "inj_on K (set xs \<union> set ys)" using same by (simp add: distinct_map)
  from inj_on_map_eq_map [OF this] keys show ?thesis by simp
qed

text \<open>
  Sorting entries with distinct keys has one result: every permutation of the list that
  \<open>Less\<close> does not put out of order is the list \<open>Sort\<close> returns. So the list
  \<^verbatim>\<open>sort.Sort\<close> leaves in \<open>kvTo\<close> is this one, whichever algorithm it runs.
\<close>

lemma Sort_unique:
  assumes "distinct (map K xs)" and "mset ys = mset xs"
    and "sorted_wrt (\<lambda>a b. \<not> Less b a) ys"
  shows "ys = Sort xs"
proof -
  have "mset (map K ys) = mset (map K xs)" using assms(2) by simp
  from mset_eq_imp_distinct_iff [OF this] have dy: "distinct (map K ys)" using assms(1) by simp
  have "mset (map K (Sort xs)) = mset (map K xs)" by (simp add: mset_Sort)
  from mset_eq_imp_distinct_iff [OF this] have ds: "distinct (map K (Sort xs))"
    using assms(1) by simp
  have "set ys = set (Sort xs)" using mset_eq_setD [OF assms(2)] by (simp add: set_Sort)
  with strictly_sorted_keys [OF assms(3) dy] strictly_sorted_keys [OF sorted_Sort ds]
  show ?thesis by (rule sorted_keys_unique)
qed

lemma kvTo_sorted:
  assumes "wf_KV a"
  shows "sorted_wrt (\<lambda>x y. K x < K y) (kvTo a)"
proof -
  have d: "distinct (map K (map (\<lambda>p. \<lparr>K = fst p, V = snd p\<rparr>) (entries a)))"
    using assms by (simp add: wf_KV_def comp_def)
  have "mset (map K (Sort xs)) = mset (map K xs)" for xs
    by (simp add: mset_Sort)
  then have "mset (map K (kvTo a)) = mset (map K (map (\<lambda>p. \<lparr>K = fst p, V = snd p\<rparr>) (entries a)))"
    unfolding kvTo_def .
  from mset_eq_imp_distinct_iff [OF this] d have "distinct (map K (kvTo a))" by simp
  with sorted_Sort show ?thesis
    unfolding kvTo_def by (rule strictly_sorted_keys)
qed

lemma set_kvTo: "set (kvTo a) = (\<lambda>p. \<lparr>K = fst p, V = snd p\<rparr>) ` set (entries a)"
  by (simp add: kvTo_def set_Sort)

text \<open>
  C7. Two attribute sets with the same key/value pairs, whatever the order in which the
  pairs were inserted or are visited, are normalised to the same list: the pairs sorted
  by key in the (bytewise) lexicographic order, strictly ascending. The loop of
  \<open>printOut\<close> over the pairs therefore writes the same bytes for both.
\<close>

theorem kvTo_sorted_order_independent:
  assumes "wf_KV a" and "wf_KV b" and "set (entries a) = set (entries b)"
  shows "kvTo a = kvTo b
       \<and> sorted_wrt (\<lambda>x y. K x < K y) (kvTo a)
       \<and> set (kvTo a) = (\<lambda>p. \<lparr>K = fst p, V = snd p\<rparr>) ` set (entries a)
       \<and> printPairs (kvTo a) p = printPairs (kvTo b) p"
proof -
  have "set (kvTo a) = set (kvTo b)" using assms(3) by (simp add: set_kvTo)
  then have "kvTo a = kvTo b"
    using kvTo_sorted [OF assms(1)] kvTo_sorted [OF assms(2)] by (intro sorted_keys_unique)
  then show ?thesis using kvTo_sorted [OF assms(1)] assms(3) by (simp add: set_kvTo)
qed



theorem kvTo_sorted_order_independent_witness:
  "wf_KV (Some [(''foo'', VString ''a''), (''bar'', VString ''a'')])
   \<and> wf_KV (Some [(''bar'', VString ''a''), (''foo'', VString ''a'')])
   \<and> set (entries (Some [(''foo'', VString ''a''), (''bar'', VString ''a'')]))
       = set (entries (Some [(''bar'', VString ''a''), (''foo'', VString ''a'')]))
   \<and> kvTo (Some [(''foo'', VString ''a''), (''bar'', VString ''a'')])
       = [\<lparr>K = ''bar'', V = VString ''a''\<rparr>, \<lparr>K = ''foo'', V = VString ''a''\<rparr>]
   \<and> kvTo (Some [(''foo'', VString ''a''), (''bar'', VString ''a'')])
       = kvTo (Some [(''bar'', VString ''a''), (''foo'', VString ''a'')])"
proof -
  have h1: "wf_KV (Some [(''foo'', VString ''a''), (''bar'', VString ''a'')])"
    and h2: "wf_KV (Some [(''bar'', VString ''a''), (''foo'', VString ''a'')])"
    by (simp_all add: wf_KV_def entries_def)
  have h3: "set (entries (Some [(''foo'', VString ''a''), (''bar'', VString ''a'')]))
       = set (entries (Some [(''bar'', VString ''a''), (''foo'', VString ''a'')]))"
    by (auto simp: entries_def)
  have v: "kvTo (Some [(''bar'', VString ''a''), (''foo'', VString ''a'')])
       = [\<lparr>K = ''bar'', V = VString ''a''\<rparr>, \<lparr>K = ''foo'', V = VString ''a''\<rparr>]"
    by (simp add: kvTo_def entries_def Less_def)
  show ?thesis
    using h1 h2 h3 v kvTo_sorted_order_independent [OF h1 h2 h3] by simp
qed

subsection \<open>The level gate\<close>

lemma Level_String_cases:
  "Level_String DebugLevel = ''DEBUG''" "Level_String InfoLevel = ''INFO''"
  "Level_String WarnLevel = ''WARN''" "Level_String ErrorLevel = ''ERROR''"
  "Level_String FatalLevel = ''FATAL''"
  by (simp_all add: Level_String_def Level_defs)

lemma Level_String_inj:
  "0 \<le> l \<Longrightarrow> l \<le> 4 \<Longrightarrow> 0 \<le> l' \<Longrightarrow> l' \<le> 4 \<Longrightarrow> Level_String l = Level_String l' \<Longrightarrow> l = l'"
  by (auto simp: Level_String_def Level_defs split: if_splits)

text \<open>
  C10. \<open>SetLevelFromString\<close> compares the upper-cased input with the five level names
  (on an ASCII input upper-casing replaces \<open>a..z\<close> by \<open>A..Z\<close>, so the comparison ignores
  case). When the upper-cased input is the name of a level, the threshold becomes that
  level and no error is returned; when it is none of the five names, the error returned
  carries the input as given and the state, hence the threshold \<open>GetLevel\<close> reads, is
  unchanged.
\<close>

theorem SetLevelFromString_parses:
  "(DebugLevel \<le> l \<and> l \<le> FatalLevel \<and> ToUpper uc ls = Level_String l
      \<longrightarrow> SetLevelFromString uc ls st = (None, st\<lparr>currLevel := l\<rparr>)
          \<and> GetLevel (snd (SetLevelFromString uc ls st)) = l)
   \<and> (ToUpper uc ls \<notin> {''DEBUG'', ''INFO'', ''WARN'', ''ERROR'', ''FATAL''}
      \<longrightarrow> SetLevelFromString uc ls st = (Some (UnknownLogLevel ls), st)
          \<and> GetLevel (snd (SetLevelFromString uc ls st)) = GetLevel st)
   \<and> (list_all (\<lambda>c. of_char c < (0x80::nat)) ls \<longrightarrow> ToUpper uc ls = map upper_byte ls)"
proof -
  have a: "SetLevelFromString uc ls st = (None, st\<lparr>currLevel := l\<rparr>)"
    if "DebugLevel \<le> l" "l \<le> FatalLevel" "ToUpper uc ls = Level_String l"
  proof -
    from that(1,2) have "l = 0 \<or> l = 1 \<or> l = 2 \<or> l = 3 \<or> l = 4"
      by (auto simp: Level_defs)
    with that(3) show ?thesis
      by (auto simp: SetLevelFromString_def SetLevel_def Level_String_def Level_defs)
  qed
  have b: "SetLevelFromString uc ls st = (Some (UnknownLogLevel ls), st)"
    if "ToUpper uc ls \<notin> {''DEBUG'', ''INFO'', ''WARN'', ''ERROR'', ''FATAL''}"
    using that by (simp add: SetLevelFromString_def)
  show ?thesis using a b by (simp add: GetLevel_def ToUpper_def)
qed

theorem SetLevelFromString_parses_witness:
  "SetLevelFromString id ''wArN'' init_state = (None, init_state\<lparr>currLevel := WarnLevel\<rparr>)
   \<and> SetLevelFromString id ''BOGUS'' init_state = (Some (UnknownLogLevel ''BOGUS''), init_state)
   \<and> GetLevel (snd (SetLevelFromString id ''BOGUS'' init_state)) = InfoLevel"
proof -
  have u1: "ToUpper id ''wArN'' = Level_String WarnLevel"
    by code_simp
  have u2: "ToUpper id ''BOGUS'' \<notin> {''DEBUG'', ''INFO'', ''WARN'', ''ERROR'', ''FATAL''}"
    by code_simp
  have r: "DebugLevel \<le> WarnLevel \<and> WarnLevel \<le> FatalLevel" by (simp add: Level_defs)
  show ?thesis
    using SetLevelFromString_parses [of WarnLevel id "''wArN''" init_state]
      SetLevelFromString_parses [of _ id "''BOGUS''" init_state] u1 u2 r
    by (simp add: GetLevel_def init_state_def)
qed

subsection \<open>The relay and the emit functions\<close>

lemma printOut_at_accepts:
  "accepts (heap st a) \<Longrightarrow>
     printOut_at e a displayTS st =
       (st\<lparr>heap := (heap st)(a := (heap st a)
                 \<lparr>written := written (heap st a) @ formatted e displayTS (clock st (tick st)),
                  calls := calls (heap st a) + length (chunks e displayTS (clock st (tick st)))\<rparr>),
            tick := (if displayTS then Suc (tick st) else tick st)\<rparr>, None)"
  by (simp add: printOut_at_def printOut_accepts Let_def)

lemma printOut_at_other:
  "b \<noteq> a \<Longrightarrow> heap (fst (printOut_at e a displayTS st)) b = heap st b"
  by (simp add: printOut_at_def Let_def)

lemma printOut_at_fields:
  "currLevel (fst (printOut_at e a displayTS st)) = currLevel st"
  "Out (fst (printOut_at e a displayTS st)) = Out st"
  "DisplayTimestamp (fst (printOut_at e a displayTS st)) = DisplayTimestamp st"
  "clock (fst (printOut_at e a displayTS st)) = clock st"
  "tick (fst (printOut_at e a displayTS st)) = (if displayTS then Suc (tick st) else tick st)"
  "nextCh (fst (printOut_at e a displayTS st)) = nextCh st"
  "closed (fst (printOut_at e a displayTS st)) = closed st"
  "received (fst (printOut_at e a displayTS st)) = received st"
  by (simp_all add: printOut_at_def Let_def)

lemma relay_flush_written:
  "written (heap (relay_flush e st) a) = written (heap st a)"
  by (simp add: relay_flush_def Sync_def Flush_def)

lemma relay_flush_fields:
  "received (relay_flush e st) = received st" "closed (relay_flush e st) = closed st"
  "Out (relay_flush e st) = Out st" "currLevel (relay_flush e st) = currLevel st"
  by (simp_all add: relay_flush_def)

lemma relay_signal_fields:
  "received (relay_signal e st) = received st" "heap (relay_signal e st) = heap st"
  "Out (relay_signal e st) = Out st" "currLevel (relay_signal e st) = currLevel st"
  by (simp_all add: relay_signal_def split: option.splits)

lemma relay_fallback_fields:
  "received (relay_fallback e err st) = received st" "closed (relay_fallback e err st) = closed st"
  "Out (relay_fallback e err st) = Out st" "currLevel (relay_fallback e err st) = currLevel st"
  by (simp_all add: relay_fallback_def printOut_at_fields Let_def split: option.splits)

lemma relay_body_received: "received (relay_body e st) = received st"
  by (simp add: relay_body_def Let_def relay_signal_fields relay_flush_fields
      relay_fallback_fields relay_print_def printOut_at_fields)

lemma relay_body_accepts:
  assumes "accepts (heap st (Out st))"
  shows "written (heap (relay_body e st) a) =
           (if a = Out st
            then written (heap st a) @ formatted e (DisplayTimestamp st) (clock st (tick st))
            else written (heap st a))"
  using assms
  by (simp add: relay_body_def Let_def relay_signal_fields relay_flush_written
      relay_print_def printOut_at_accepts relay_fallback_def)

lemma logEntry_pass:
  "l \<ge> GetLevel st \<Longrightarrow>
     logEntry l m kvs bch st =
       relay_body \<lparr>level = l, msg = m, kv = kvNormalize kvs, blockCh = bch\<rparr>
         (st\<lparr>received := received st @ [\<lparr>level = l, msg = m, kv = kvNormalize kvs, blockCh = bch\<rparr>]\<rparr>)"
  by (simp add: logEntry_def send_def)

lemma logEntry_block: "l < GetLevel st \<Longrightarrow> logEntry l m kvs bch st = st"
  by (simp add: logEntry_def)

lemma logEntry_written:
  assumes "l \<ge> GetLevel st" and "accepts (heap st (Out st))"
  shows "written (heap (logEntry l m kvs bch st) a) =
           (if a = Out st
            then written (heap st a)
                 @ formatted \<lparr>level = l, msg = m, kv = kvNormalize kvs, blockCh = bch\<rparr>
                     (DisplayTimestamp st) (clock st (tick st))
            else written (heap st a))"
  using assms by (simp add: logEntry_pass relay_body_accepts)

text \<open>
  C5. A call of \<open>logEntry\<close> hands an entry to the relay exactly when the level asked for
  is at least the threshold; the entry has the level, the message and the normalised
  attributes of the call. Below the threshold the call changes nothing. In particular,
  with the threshold at \<open>WarnLevel\<close> and a writer \<open>Out\<close> that accepts its writes, \<open>Debug\<close>
  and \<open>Info\<close> leave the state as it is (no output), and \<open>Warn\<close> and \<open>Error\<close> append the
  one formatted line of their entry to \<open>Out\<close> and write nowhere else.
\<close>

theorem logEntry_level_gate:
  "(received (logEntry l m kvs bch st)
      = received st @ [\<lparr>level = l, msg = m, kv = kvNormalize kvs, blockCh = bch\<rparr>]
    \<longleftrightarrow> l \<ge> GetLevel st)
   \<and> (l < GetLevel st \<longrightarrow> logEntry l m kvs bch st = st)
   \<and> (GetLevel st = WarnLevel \<and> accepts (heap st (Out st)) \<longrightarrow>
        Debug m kvs st = st \<and> Info m kvs st = st
      \<and> written (heap (Warn m kvs st) a) =
           (if a = Out st
            then written (heap st a)
                 @ formatted \<lparr>level = WarnLevel, msg = m, kv = kvNormalize kvs, blockCh = None\<rparr>
                     (DisplayTimestamp st) (clock st (tick st))
            else written (heap st a))
      \<and> written (heap (Error m kvs st) a) =
           (if a = Out st
            then written (heap st a)
                 @ formatted \<lparr>level = ErrorLevel, msg = m, kv = kvNormalize kvs, blockCh = None\<rparr>
                     (DisplayTimestamp st) (clock st (tick st))
            else written (heap st a)))"
proof -
  have gate: "received (logEntry l m kvs bch st)
      = received st @ [\<lparr>level = l, msg = m, kv = kvNormalize kvs, blockCh = bch\<rparr>]
    \<longleftrightarrow> l \<ge> GetLevel st"
  proof (cases "l \<ge> GetLevel st")
    case True
    then show ?thesis by (simp add: logEntry_pass relay_body_received)
  next
    case False
    then show ?thesis by (simp add: logEntry_def)
  qed
  have low: "Debug m kvs st = st \<and> Info m kvs st = st" if "GetLevel st = WarnLevel"
    using that by (simp add: Debug_def Info_def logEntry_block Level_defs)
  have warn: "written (heap (Warn m kvs st) a) =
           (if a = Out st
            then written (heap st a)
                 @ formatted \<lparr>level = WarnLevel, msg = m, kv = kvNormalize kvs, blockCh = None\<rparr>
                     (DisplayTimestamp st) (clock st (tick st))
            else written (heap st a))"
    if "GetLevel st = WarnLevel" "accepts (heap st (Out st))"
    unfolding Warn_def using that by (intro logEntry_written) simp_all
  have err: "written (heap (Error m kvs st) a) =
           (if a = Out st
            then written (heap st a)
                 @ formatted \<lparr>level = ErrorLevel, msg = m, kv = kvNormalize kvs, blockCh = None\<rparr>
                     (DisplayTimestamp st) (clock st (tick st))
            else written (heap st a))"
    if "GetLevel st = WarnLevel" "accepts (heap st (Out st))"
    unfolding Error_def using that by (intro logEntry_written) (simp_all add: Level_defs)
  show ?thesis using gate low warn err logEntry_block by blast
qed


theorem logEntry_level_gate_witness:
  "GetLevel (init_state\<lparr>currLevel := WarnLevel\<rparr>) = WarnLevel
   \<and> accepts (heap (init_state\<lparr>currLevel := WarnLevel\<rparr>) (Out (init_state\<lparr>currLevel := WarnLevel\<rparr>)))
   \<and> Debug ''foo'' [] (init_state\<lparr>currLevel := WarnLevel\<rparr>) = init_state\<lparr>currLevel := WarnLevel\<rparr>
   \<and> Info ''bar'' [] (init_state\<lparr>currLevel := WarnLevel\<rparr>) = init_state\<lparr>currLevel := WarnLevel\<rparr>
   \<and> written (heap (Warn ''baz'' [] (init_state\<lparr>currLevel := WarnLevel\<rparr>)) defaultOut)
       = ''~ WARN -- baz'' @ [CHR 0x0A]
   \<and> written (heap (Error ''buz'' [Some [(''a'', VString ''b'')]] (init_state\<lparr>currLevel := WarnLevel\<rparr>))
         defaultOut)
       = ''~ ERROR -- buz -- a='' @ [dquote] @ ''b'' @ [dquote, CHR 0x0A]"
proof -
  let ?s = "init_state\<lparr>currLevel := WarnLevel\<rparr>"
  have h: "GetLevel ?s = WarnLevel \<and> accepts (heap ?s (Out ?s))"
    by (simp add: GetLevel_def init_state_def accepts_emptyBuffer)
  have f1: "formatted \<lparr>level = WarnLevel, msg = ''baz'', kv = kvNormalize [], blockCh = None\<rparr>
              False [] = ''~ WARN -- baz'' @ [CHR 0x0A]"
    by code_simp
  have f2: "formatted \<lparr>level = ErrorLevel, msg = ''buz'',
              kv = kvNormalize [Some [(''a'', VString ''b'')]], blockCh = None\<rparr> False []
            = ''~ ERROR -- buz -- a='' @ [dquote] @ ''b'' @ [dquote, CHR 0x0A]"
    by code_simp
  have s: "Out ?s = defaultOut" "DisplayTimestamp ?s = False" "clock ?s (tick ?s) = []"
    "written (heap ?s defaultOut) = []"
    by (simp_all add: init_state_def emptyBuffer_def)
  show ?thesis
    using h f1 f2 s
      logEntry_level_gate [of DebugLevel "''foo''" "[]" None ?s defaultOut]
      logEntry_level_gate [of DebugLevel "''bar''" "[]" None ?s defaultOut]
      logEntry_level_gate [of DebugLevel "''baz''" "[]" None ?s defaultOut]
      logEntry_level_gate [of DebugLevel "''buz''" "[Some [(''a'', VString ''b'')]]" None ?s defaultOut]
    by simp
qed

text \<open>
  C6 (as amended). When the threshold is above \<open>FatalLevel\<close>, a call of \<open>Fatal\<close> creates
  its channel and nothing else: \<open>logEntry\<close> builds and sends no entry, so nothing is
  written and nobody closes the channel. \<^verbatim>\<open>os.Exit(1)\<close> is not reached and the call
  never returns: it stays blocked in the receive while another goroutine of the
  program can run, and otherwise the Go runtime ends the deadlocked process.
\<close>

theorem Fatal_suppressed_above_FatalLevel:
  assumes "FatalLevel < GetLevel st"
  shows "logEntry FatalLevel m kvs bch st = st
       \<and> (\<forall>n s. Fatal m kvs others st \<noteq> Exit n s)
       \<and> Fatal m kvs others st
           = (if others
              then Blocked (st\<lparr>nextCh := Suc (nextCh st), closed := closed st - {nextCh st}\<rparr>)
              else Deadlock (st\<lparr>nextCh := Suc (nextCh st), closed := closed st - {nextCh st}\<rparr>))"
  using assms by (simp add: Fatal_def make_chan_def logEntry_def Let_def GetLevel_def)

theorem Fatal_suppressed_above_FatalLevel_witness:
  "FatalLevel < GetLevel (init_state\<lparr>currLevel := 5\<rparr>)
   \<and> logEntry FatalLevel ''buz'' [] (Some 0) (init_state\<lparr>currLevel := 5\<rparr>)
       = init_state\<lparr>currLevel := 5\<rparr>
   \<and> Fatal ''buz'' [] True (init_state\<lparr>currLevel := 5\<rparr>)
       = Blocked (init_state\<lparr>currLevel := 5, nextCh := 1\<rparr>)
   \<and> exit_status (Fatal ''buz'' [] True (init_state\<lparr>currLevel := 5\<rparr>)) = None"
proof -
  have h: "FatalLevel < GetLevel (init_state\<lparr>currLevel := 5\<rparr>)"
    by (simp add: GetLevel_def FatalLevel_def)
  show ?thesis
    using h Fatal_suppressed_above_FatalLevel [OF h, of "''buz''" "[]" "Some 0" True]
    by (simp add: init_state_def)
qed

text \<open>
  C6 as the specification states it (the process does not terminate) fails: in a
  program that has only its main goroutine, which calls \<open>Fatal\<close> with the threshold at
  5, and the relay, both goroutines block and the runtime ends the process with exit
  status 2.
\<close>

theorem Fatal_suppressed_deadlock_counterexample:
  "FatalLevel < GetLevel (init_state\<lparr>currLevel := 5\<rparr>)
   \<and> Fatal ''buz'' [] False (init_state\<lparr>currLevel := 5\<rparr>)
       = Deadlock (init_state\<lparr>currLevel := 5, nextCh := 1\<rparr>)
   \<and> exit_status (Fatal ''buz'' [] False (init_state\<lparr>currLevel := 5\<rparr>)) = Some 2"
  by (simp add: Fatal_def make_chan_def logEntry_def Let_def GetLevel_def FatalLevel_def
      init_state_def)

text \<open>
  C4 (as amended). For a fatal entry the relay asks the writer \<open>Out\<close> for a \<^verbatim>\<open>Sync\<close>
  method first and, only if there is none, for a \<^verbatim>\<open>Flush\<close> method; it calls the first
  one found, so at most one call is made; with neither method the state is unchanged
  and nothing fails.
\<close>

theorem relay_flush_Sync_then_Flush:
  assumes "level e = FatalLevel"
  shows "(has_Sync (heap st (Out st)) \<longrightarrow>
            heap (relay_flush e st) (Out st) = Sync (heap st (Out st)))
       \<and> (\<not> has_Sync (heap st (Out st)) \<and> has_Flush (heap st (Out st)) \<longrightarrow>
            heap (relay_flush e st) (Out st) = Flush (heap st (Out st)))
       \<and> (\<not> has_Sync (heap st (Out st)) \<and> \<not> has_Flush (heap st (Out st)) \<longrightarrow>
            relay_flush e st = st)
       \<and> Sync_calls (heap (relay_flush e st) (Out st)) + Flush_calls (heap (relay_flush e st) (Out st))
           \<le> Suc (Sync_calls (heap st (Out st)) + Flush_calls (heap st (Out st)))"
  using assms by (simp add: relay_flush_def Sync_def Flush_def)

theorem relay_flush_Sync_then_Flush_witness:
  "level \<lparr>level = FatalLevel, msg = ''m'', kv = [], blockCh = None\<rparr> = FatalLevel
   \<and> has_Sync (heap sync_flush_state (Out sync_flush_state))
   \<and> heap (relay_flush \<lparr>level = FatalLevel, msg = ''m'', kv = [], blockCh = None\<rparr>
             sync_flush_state) (Out sync_flush_state)
       = emptyBuffer\<lparr>has_Sync := True, has_Flush := True, Sync_calls := 1\<rparr>
   \<and> relay_flush \<lparr>level = FatalLevel, msg = ''m'', kv = [], blockCh = None\<rparr> init_state
       = init_state"
proof -
  let ?e = "\<lparr>level = FatalLevel, msg = ''m'', kv = [], blockCh = None\<rparr>"
  have h: "level ?e = FatalLevel" by simp
  show ?thesis
    using h relay_flush_Sync_then_Flush [OF h, of sync_flush_state]
      relay_flush_Sync_then_Flush [OF h, of init_state]
    by (simp add: sync_flush_state_def init_state_def emptyBuffer_def Sync_def)
qed

text \<open>
  C4 as the specification states it (flush first, then sync) fails: for a writer with
  both methods and a fatal entry the relay calls \<^verbatim>\<open>Sync\<close> once and \<^verbatim>\<open>Flush\<close> not at all.
\<close>

theorem flush_first_counterexample:
  "has_Flush (heap sync_flush_state (Out sync_flush_state))
   \<and> Flush_calls (heap (relay_flush \<lparr>level = FatalLevel, msg = ''m'', kv = [], blockCh = None\<rparr>
                          sync_flush_state) (Out sync_flush_state)) = 0
   \<and> Sync_calls (heap (relay_flush \<lparr>level = FatalLevel, msg = ''m'', kv = [], blockCh = None\<rparr>
                          sync_flush_state) (Out sync_flush_state)) = 1"
  by (simp add: relay_flush_def sync_flush_state_def init_state_def emptyBuffer_def Sync_def)

lemma formatted_no_timestamp: "formatted e False now = formatted e False now'"
  by (simp add: formatted_chunks chunks_def)

lemma kv_erre: "kv (erre err) = [\<lparr>K = ''err'', V = VError (Error_text err)\<rparr>]"
  by (simp add: erre_def kvTo_def entries_def)

lemma printOut_no_timestamp: "printOut e w False now = printOut e w False now'"
  by (simp add: printOut_def)

lemma relay_flush_other: "a \<noteq> Out st \<Longrightarrow> heap (relay_flush e st) a = heap st a"
  by (simp add: relay_flush_def)

text \<open>
  C3. When the write of an entry to \<open>Out\<close> fails and \<open>Out\<close> is not standard output, the
  relay calls \<open>printOut\<close> on standard output twice, and only twice: first for a new entry
  of level \<open>ErrorLevel\<close> with the message \<^verbatim>\<open>Could not write to error Out\<close> and the error
  as its attribute \<^verbatim>\<open>err\<close>, then for the entry that failed, formatted again. Standard
  output, when it accepts its writes, receives these two lines and nothing else. The
  error goes nowhere else: \<open>relay_body\<close>, and with it \<open>logEntry\<close>, returns the state only.
\<close>

theorem relay_fallback_two_lines:
  assumes fail: "snd (relay_print e st) = Some err"
    and ne: "Out st \<noteq> defaultOut"
  shows "heap (relay_body e st) defaultOut
           = fst (printOut e
                   (fst (printOut (erre err) (heap st defaultOut) (DisplayTimestamp st)
                          (clock st (tick st + 1))))
                   (DisplayTimestamp st) (clock st (tick st + 2)))
       \<and> (accepts (heap st defaultOut) \<longrightarrow>
            written (heap (relay_body e st) defaultOut)
              = written (heap st defaultOut)
                @ formatted (erre err) (DisplayTimestamp st) (clock st (tick st + 1))
                @ formatted e (DisplayTimestamp st) (clock st (tick st + 2)))
       \<and> level (erre err) = ErrorLevel
       \<and> msg (erre err) = ''Could not write to error Out''
       \<and> kv (erre err) = [\<lparr>K = ''err'', V = VError (Error_text err)\<rparr>]"
proof -
  define st1 where "st1 = fst (relay_print e st)"
  define st2 where "st2 = fst (printOut_at (erre err) defaultOut (DisplayTimestamp st) st1)"
  define st3 where "st3 = fst (printOut_at e defaultOut (DisplayTimestamp st) st2)"
  define w1 where "w1 = fst (printOut (erre err) (heap st defaultOut) (DisplayTimestamp st)
                          (clock st (tick st + 1)))"
  have f1: "Out st1 = Out st" "DisplayTimestamp st1 = DisplayTimestamp st" "clock st1 = clock st"
    "tick st1 = (if DisplayTimestamp st then Suc (tick st) else tick st)"
    by (simp_all add: st1_def relay_print_def printOut_at_fields)
  have h1: "heap st1 defaultOut = heap st defaultOut"
    using ne by (simp add: st1_def relay_print_def printOut_at_other)
  have fb: "relay_fallback e (snd (relay_print e st)) st1 = st3"
    using ne by (simp add: fail relay_fallback_def f1 st2_def st3_def Let_def printOut_at_fields)
  have f2: "Out st2 = Out st" "clock st2 = clock st"
    "tick st2 = (if DisplayTimestamp st then Suc (tick st1) else tick st1)"
    by (simp_all add: st2_def printOut_at_fields f1)
  have h2: "heap st2 defaultOut = w1"
  proof (cases "DisplayTimestamp st")
    case True
    then show ?thesis by (simp add: st2_def printOut_at_def Let_def h1 f1 w1_def)
  next
    case False
    then show ?thesis
      using printOut_no_timestamp [of "erre err" "heap st defaultOut" "clock st (tick st)"
          "clock st (tick st + 1)"]
      by (simp add: st2_def printOut_at_def Let_def h1 f1 w1_def)
  qed
  have h3: "heap st3 defaultOut
      = fst (printOut e w1 (DisplayTimestamp st) (clock st (tick st + 2)))"
  proof (cases "DisplayTimestamp st")
    case True
    then show ?thesis by (simp add: st3_def printOut_at_def Let_def h2 f2 f1)
  next
    case False
    then show ?thesis
      using printOut_no_timestamp [of e w1 "clock st (tick st)" "clock st (tick st + 2)"]
      by (simp add: st3_def printOut_at_def Let_def h2 f2 f1)
  qed
  have o3: "Out st3 = Out st" by (simp add: st3_def printOut_at_fields f2)
  have "heap (relay_body e st) defaultOut = heap (relay_flush e st3) defaultOut"
    using fb by (simp add: relay_body_def Let_def relay_signal_fields st1_def)
  also have "\<dots> = heap st3 defaultOut"
    using ne o3 by (simp add: relay_flush_other)
  finally have calls: "heap (relay_body e st) defaultOut
      = fst (printOut e w1 (DisplayTimestamp st) (clock st (tick st + 2)))"
    by (simp add: h3)
  have lines: "written (heap (relay_body e st) defaultOut)
              = written (heap st defaultOut)
                @ formatted (erre err) (DisplayTimestamp st) (clock st (tick st + 1))
                @ formatted e (DisplayTimestamp st) (clock st (tick st + 2))"
    if "accepts (heap st defaultOut)"
    using that by (simp add: calls w1_def printOut_accepts)
  show ?thesis
    using calls lines by (simp add: w1_def kv_erre) (simp add: erre_def)
qed

theorem relay_fallback_two_lines_witness:
  "snd (relay_print \<lparr>level = ErrorLevel, msg = ''buz'', kv = [], blockCh = None\<rparr> failing_state)
     = Some (IOError ''closed'')
   \<and> Out failing_state \<noteq> defaultOut
   \<and> accepts (heap failing_state defaultOut)
   \<and> written (heap (relay_body \<lparr>level = ErrorLevel, msg = ''buz'', kv = [], blockCh = None\<rparr>
                       failing_state) defaultOut)
       = ''~ ERROR -- Could not write to error Out -- err='' @ [dquote] @ ''closed''
         @ [dquote, CHR 0x0A] @ ''~ ERROR -- buz'' @ [CHR 0x0A]"
proof -
  let ?e = "\<lparr>level = ErrorLevel, msg = ''buz'', kv = [], blockCh = None\<rparr>"
  have h1: "snd (relay_print ?e failing_state) = Some (IOError ''closed'')"
    by code_simp
  have h2: "Out failing_state \<noteq> defaultOut"
    by (simp add: failing_state_def init_state_def defaultOut_def)
  have h3: "accepts (heap failing_state defaultOut)"
    by (simp add: failing_state_def init_state_def accepts_emptyBuffer)
  have f1: "formatted (erre (IOError ''closed'')) False []
      = ''~ ERROR -- Could not write to error Out -- err='' @ [dquote] @ ''closed''
         @ [dquote, CHR 0x0A]"
    by code_simp
  have f2: "formatted ?e False [] = ''~ ERROR -- buz'' @ [CHR 0x0A]"
    by code_simp
  have s: "DisplayTimestamp failing_state = False" "clock failing_state = (\<lambda>n. [])"
    "written (heap failing_state defaultOut) = []"
    by (simp_all add: failing_state_def init_state_def emptyBuffer_def)
  from relay_fallback_two_lines [OF h1 h2] h3
  have "written (heap (relay_body ?e failing_state) defaultOut)
              = written (heap failing_state defaultOut)
                @ formatted (erre (IOError ''closed'')) (DisplayTimestamp failing_state)
                    (clock failing_state (tick failing_state + 1))
                @ formatted ?e (DisplayTimestamp failing_state)
                    (clock failing_state (tick failing_state + 2))"
    by blast
  then show ?thesis
    using h1 h2 h3 f1 f2 s by simp
qed

subsection \<open>Quoting\<close>

lemma of_char_consts: "of_char dquote = (34::nat)" "of_char bslash = (92::nat)" "of_char squote = (39::nat)"
  by (simp_all add: dquote_def bslash_def squote_def)

lemma safe_lowerhex: "safe_byte (lowerhex n)"
proof -
  have "list_all safe_byte ''0123456789abcdef''"
    by (simp add: safe_byte_def dquote_def)
  then have "\<forall>i < length ''0123456789abcdef''. safe_byte (''0123456789abcdef'' ! i)"
    by (simp only: list_all_length)
  moreover have "n mod 16 < length ''0123456789abcdef''" by simp
  ultimately show ?thesis unfolding lowerhex_def by blast
qed

lemma safe_hexdigits: "list_all safe_byte (hexdigits k r)"
  by (induction k arbitrary: r) (simp_all add: safe_lowerhex)

lemma safe_bslash: "safe_byte bslash"
  by (simp add: safe_byte_def bslash_def dquote_def)

lemma safe_char_of: "0x20 \<le> r \<Longrightarrow> r \<le> 0x7E \<Longrightarrow> r \<noteq> 34 \<Longrightarrow> safe_byte (char_of (r::nat))"
proof -
  assume a: "0x20 \<le> r" "r \<le> 0x7E" "r \<noteq> 34"
  then have "of_char (char_of r) = r" by (simp add: of_char_of)
  moreover have "char_of r \<noteq> dquote"
  proof
    assume "char_of r = dquote"
    then have "of_char (char_of r) = (of_char dquote :: nat)" by simp
    with a show False by (simp add: of_char_of of_char_consts)
  qed
  ultimately show ?thesis using a by (simp add: safe_byte_def)
qed

lemma safe_letters:
  "safe_byte CHR ''a''" "safe_byte CHR ''b''" "safe_byte CHR ''f''" "safe_byte CHR ''n''"
  "safe_byte CHR ''r''" "safe_byte CHR ''t''" "safe_byte CHR ''v''" "safe_byte CHR ''x''"
  "safe_byte CHR ''u''" "safe_byte CHR ''U''"
  by (simp_all add: safe_byte_def dquote_def)

lemma safe_EscapedRune: "r \<noteq> 34 \<Longrightarrow> list_all safe_byte (EscapedRune r)"
  unfolding EscapedRune_def
  by (simp add: safe_bslash safe_letters safe_hexdigits safe_char_of)

lemma mod_window:
  fixes s :: nat
  assumes "a * m \<le> s" and "s < a * m + m"
  shows "s mod m = s - a * m"
proof -
  define k where "k = s - a * m"
  have s: "s = k + a * m" and k: "k < m" using assms by (simp_all add: k_def)
  have "s mod m = k mod m" unfolding s by simp
  with k show ?thesis by (simp add: k_def)
qed

lemma mod_bounds1: "0xC2 \<le> s0 \<Longrightarrow> s0 < 0xE0 \<Longrightarrow> 2 \<le> (s0::nat) mod 32"
  using mod_window [of 6 32 s0] by simp
lemma mod_bounds2: "0xE0 < s0 \<Longrightarrow> s0 < 0xF0 \<Longrightarrow> 1 \<le> (s0::nat) mod 16"
  using mod_window [of 14 16 s0] by simp
lemma mod_bounds3:  "0xF0 < s0 \<Longrightarrow> s0 \<le> 0xF4 \<Longrightarrow> 1 \<le> (s0::nat) mod 8"
  using mod_window [of 30 8 s0] by simp
lemma mod_bounds4:  "0xA0 \<le> x \<Longrightarrow> x \<le> 0xBF \<Longrightarrow> 32 \<le> (x::nat) mod 64"
  using mod_window [of 2 64 x] by simp
lemma mod_bounds5:  "0x90 \<le> x \<Longrightarrow> x \<le> 0xBF \<Longrightarrow> 16 \<le> (x::nat) mod 64"
  using mod_window [of 2 64 x] by simp

lemma DecodeRune_2:
  assumes "DecodeRune s0 (s1 # rest1) = Some (r, w)" and "s0 < 0xE0"
  shows "0xC2 \<le> s0 \<and> r = (s0 mod 32) * 64 + maskx s1"
  using assms by (simp add: DecodeRune.simps split: if_splits)

lemma DecodeRune_3:
  assumes "DecodeRune s0 (s1 # rest1) = Some (r, w)" and "\<not> s0 < 0xE0" and "s0 < 0xF0"
  shows "inrange (accept_lo s0) (accept_hi s0) s1
       \<and> (\<exists>s2. r = (s0 mod 16) * 4096 + maskx s1 * 64 + maskx s2)"
proof (cases rest1)
  case Nil
  with assms show ?thesis by (simp add: DecodeRune.simps split: if_splits)
next
  case (Cons s2 rest2)
  with assms have "inrange (accept_lo s0) (accept_hi s0) s1"
    and "r = (s0 mod 16) * 4096 + maskx s1 * 64 + maskx s2"
    by (simp_all add: DecodeRune.simps split: if_splits)
  then show ?thesis by blast
qed

lemma DecodeRune_4:
  assumes "DecodeRune s0 (s1 # rest1) = Some (r, w)" and "\<not> s0 < 0xF0"
  shows "s0 \<le> 0xF4 \<and> inrange (accept_lo s0) (accept_hi s0) s1
       \<and> (\<exists>s2 s3. r = (s0 mod 8) * 262144 + maskx s1 * 4096 + maskx s2 * 64 + maskx s3)"
proof (cases rest1)
  case Nil
  with assms show ?thesis by (simp add: DecodeRune.simps split: if_splits)
next
  case (Cons s2 rest2)
  show ?thesis
  proof (cases rest2)
    case Nil
    with Cons assms show ?thesis by (simp add: DecodeRune.simps split: if_splits)
  next
    case c: (Cons s3 rest3)
    with Cons assms have "s0 \<le> 0xF4" and "inrange (accept_lo s0) (accept_hi s0) s1"
      and "r = (s0 mod 8) * 262144 + maskx s1 * 4096 + maskx s2 * 64 + maskx s3"
      by (simp_all add: DecodeRune.simps split: if_splits)
    then show ?thesis by blast
  qed
qed

lemma DecodeRune_ge:
  assumes "DecodeRune s0 rest = Some (r, w)"
  shows "0x80 \<le> r"
proof (cases rest)
  case Nil
  with assms show ?thesis by (simp add: DecodeRune.simps)
next
  case (Cons s1 rest1)
  note d = assms [unfolded Cons]
  show ?thesis
  proof (cases "s0 < 0xE0")
    case True
    from DecodeRune_2 [OF d True] have "0xC2 \<le> s0" and r: "r = (s0 mod 32) * 64 + maskx s1"
      by simp_all
    from \<open>0xC2 \<le> s0\<close> True have "2 \<le> s0 mod 32" by (rule mod_bounds1)
    with r show ?thesis by simp
  next
    case ge_E0: False
    show ?thesis
    proof (cases "s0 < 0xF0")
      case True
      from DecodeRune_3 [OF d ge_E0 True] obtain s2
        where in1: "inrange (accept_lo s0) (accept_hi s0) s1"
          and r: "r = (s0 mod 16) * 4096 + maskx s1 * 64 + maskx s2" by blast
      show ?thesis
      proof (cases "s0 = 0xE0")
        case e0: True
        with in1 have "0xA0 \<le> (of_char s1 :: nat)" "(of_char s1 :: nat) \<le> 0xBF"
          by (simp_all add: inrange_def accept_lo_def accept_hi_def)
        then have "32 \<le> maskx s1" unfolding maskx_def by (rule mod_bounds4)
        with r show ?thesis by simp
      next
        case False
        with ge_E0 True have "0xE0 < s0" by simp
        from this True have "1 \<le> s0 mod 16" by (rule mod_bounds2)
        with r show ?thesis by simp
      qed
    next
      case ge_F0: False
      from DecodeRune_4 [OF d ge_F0] obtain s2 s3
        where le: "s0 \<le> 0xF4" and in1: "inrange (accept_lo s0) (accept_hi s0) s1"
          and r: "r = (s0 mod 8) * 262144 + maskx s1 * 4096 + maskx s2 * 64 + maskx s3" by blast
      show ?thesis
      proof (cases "s0 = 0xF0")
        case True
        with in1 have "0x90 \<le> (of_char s1 :: nat)" "(of_char s1 :: nat) \<le> 0xBF"
          by (simp_all add: inrange_def accept_lo_def accept_hi_def)
        then have "16 \<le> maskx s1" unfolding maskx_def by (rule mod_bounds5)
        with r show ?thesis by simp
      next
        case False
        with ge_F0 have "0xF0 < s0" by simp
        from this le have "1 \<le> s0 mod 8" by (rule mod_bounds3)
        with r show ?thesis by simp
      qed
    qed
  qed
qed

lemma safe_quoteLoop: "dquote \<notin> set s \<Longrightarrow> list_all safe_byte (quoteLoop s)"
proof (induction s rule: quoteLoop.induct)
  case 1
  then show ?case by simp
next
  case (2 c cs)
  show ?case
  proof (cases "of_char c < (0x80::nat)")
    case True
    have "of_char c \<noteq> (34::nat)"
    proof
      assume "of_char c = (34::nat)"
      then have "(of_char c :: nat) = of_char dquote" by (simp add: of_char_consts)
      then have "c = dquote" by (simp only: of_char_eq_iff)
      with 2(4) show False by simp
    qed
    with True 2 show ?thesis by (simp add: safe_EscapedRune)
  next
    case False
    show ?thesis
    proof (cases "DecodeRune (of_char c) cs")
      case None
      with False 2 show ?thesis
        by (simp add: safe_bslash safe_letters safe_hexdigits)
    next
      case (Some p)
      obtain r w where p: "p = (r, w)" by (cases p)
      from Some p DecodeRune_ge have "0x80 \<le> r" by blast
      then have "r \<noteq> 34" by simp
      moreover have "dquote \<notin> set (drop (w - 1) cs)"
        using 2(4) by (auto dest: in_set_dropD)
      ultimately show ?thesis
        using False Some p 2(3) by (simp add: safe_EscapedRune)
    qed
  qed
qed

lemma Replace_no_dquote: "dquote \<notin> set (Replace s dquote squote)"
  by (auto simp: Replace_def dquote_def squote_def)

lemma quoteLoop_plain:
  "list_all (\<lambda>c. (0x20::nat) \<le> of_char c \<and> of_char c \<le> (0x7E::nat) \<and> c \<noteq> bslash \<and> c \<noteq> dquote) t
     \<Longrightarrow> quoteLoop t = t"
proof (induction t)
  case Nil
  then show ?case by simp
next
  case (Cons c t)
  then have b: "(0x20::nat) \<le> of_char c" "of_char c \<le> (0x7E::nat)" "c \<noteq> bslash" "c \<noteq> dquote"
    by simp_all
  have "(of_char c :: nat) \<noteq> of_char dquote" "(of_char c :: nat) \<noteq> of_char bslash"
    using b(3,4) by (simp_all only: of_char_eq_iff not_False_eq_True)
  then have "of_char c \<noteq> (34::nat)" "of_char c \<noteq> (92::nat)"
    by (simp_all add: of_char_consts)
  with b have "EscapedRune (of_char c) = [c]"
    by (simp add: EscapedRune_def)
  with Cons b show ?case by simp
qed


text \<open>
  C8. For each attribute the loop of \<open>printOut\<close> writes a space, the key, \<^verbatim>\<open>=\<close> and the
  rendered value. The rendered value is the default text of the value (\<open>Sprint\<close>) with
  every double quote replaced by a single quote, then quoted: it starts and ends with
  a double quote, and every byte between the two is printable ASCII and not a double
  quote, so that bytes outside printable ASCII appear only in escaped form. A text of
  printable ASCII bytes without backslash is left as it is between the quotes.
\<close>

theorem value_rendered_quoted:
  assumes "accepts w"
  shows "written (fst (printPairs [kve] (w, None)))
           = written w @ '' '' @ K kve @ ''='' @ [dquote]
             @ quoteLoop (Replace (Sprint (V kve)) dquote squote) @ [dquote]
       \<and> Replace (Sprint (V kve)) dquote squote
           = map (\<lambda>c. if c = dquote then squote else c) (Sprint (V kve))
       \<and> list_all safe_byte (quoteLoop (Replace (Sprint (V kve)) dquote squote))
       \<and> (list_all (\<lambda>c. safe_byte c \<and> c \<noteq> bslash) (Replace (Sprint (V kve)) dquote squote)
            \<longrightarrow> quoteLoop (Replace (Sprint (V kve)) dquote squote)
                = Replace (Sprint (V kve)) dquote squote)"
proof -
  have "printPairs [kve] (w, None) = fold writeHelper (pair_chunks kve) (w, None)"
    by (simp add: printPairs_fold)
  also have "\<dots> = (w\<lparr>written := written w @ concat (pair_chunks kve),
                       calls := calls w + length (pair_chunks kve)\<rparr>, None)"
    using assms by (rule fold_writeHelper_accepts)
  finally have w: "written (fst (printPairs [kve] (w, None)))
           = written w @ '' '' @ K kve @ ''='' @ [dquote]
             @ quoteLoop (Replace (Sprint (V kve)) dquote squote) @ [dquote]"
    by (simp add: pair_chunks_def space_def equals_def QuoteToASCII_def)
  have s: "list_all safe_byte (quoteLoop (Replace (Sprint (V kve)) dquote squote))"
    by (rule safe_quoteLoop) (rule Replace_no_dquote)
  have p: "quoteLoop t = t" if "list_all (\<lambda>c. safe_byte c \<and> c \<noteq> bslash) t" for t
  proof (rule quoteLoop_plain)
    from that show "list_all (\<lambda>c. (0x20::nat) \<le> of_char c \<and> of_char c \<le> (0x7E::nat)
        \<and> c \<noteq> bslash \<and> c \<noteq> dquote) t"
      by (simp add: safe_byte_def list_all_iff)
  qed
  show ?thesis using w s p by (simp add: Replace_def)
qed

theorem value_rendered_quoted_witness:
  "accepts emptyBuffer
   \<and> written (fst (printPairs
        [\<lparr>K = ''a'', V = VString (''say '' @ [dquote] @ ''hi'' @ [dquote, CHR 0x0A])\<rparr>]
        (emptyBuffer, None)))
       = '' a='' @ [dquote] @ ''say '' @ [squote] @ ''hi'' @ [squote, bslash] @ ''n'' @ [dquote]
   \<and> list_all safe_byte (''say '' @ [squote] @ ''hi'' @ [squote, bslash] @ ''n'')"
proof -
  let ?kve = "\<lparr>K = ''a'', V = VString (''say '' @ [dquote] @ ''hi'' @ [dquote, CHR 0x0A])\<rparr>"
  have h: "accepts emptyBuffer" by (rule accepts_emptyBuffer)
  have q: "quoteLoop (Replace (Sprint (V ?kve)) dquote squote)
             = ''say '' @ [squote] @ ''hi'' @ [squote, bslash] @ ''n''"
    by code_simp
  have e: "written emptyBuffer = []" by (simp add: emptyBuffer_def)
  note t = value_rendered_quoted [OF h, of ?kve]
  from t have 1: "written (fst (printPairs [?kve] (emptyBuffer, None)))
           = written emptyBuffer @ '' '' @ K ?kve @ ''='' @ [dquote]
             @ quoteLoop (Replace (Sprint (V ?kve)) dquote squote) @ [dquote]"
    by (rule conjunct1)
  from t have 2: "list_all safe_byte (quoteLoop (Replace (Sprint (V ?kve)) dquote squote))"
    by blast
  show ?thesis
    using h 1 [unfolded q e] 2 [unfolded q] by simp
qed

subsection \<open>The call of Fatal and the relay, interleaved\<close>

lemma closed_relay_print: "closed (fst (relay_print e st)) = closed st"
  by (simp add: relay_print_def printOut_at_fields)

lemma closed_relay_signal_None: "blockCh e = None \<Longrightarrow> closed (relay_signal e st) = closed st"
  by (simp add: relay_signal_def)

lemma closed_relay_signal_Some: "blockCh e = Some c \<Longrightarrow> closed (relay_signal e st) = insert c (closed st)"
  by (simp add: relay_signal_def)


lemma blockCh_fatal_entry: "blockCh (fatal_entry m kvs c) = Some c"
  by (simp add: fatal_entry_def)






















lemma Fatal_Exit:
  assumes "FatalLevel \<ge> GetLevel st"
  shows "Fatal m kvs others st
           = Exit 1 (logEntry FatalLevel m kvs (Some (nextCh st)) (snd (make_chan st)))"
proof -
  have "GetLevel (snd (make_chan st)) = GetLevel st" by (simp add: make_chan_def GetLevel_def)
  with assms have "nextCh st \<in> closed (logEntry FatalLevel m kvs (Some (nextCh st)) (snd (make_chan st)))"
    by (simp add: logEntry_def send_def relay_body_def Let_def relay_signal_def)
  then show ?thesis by (simp add: Fatal_def Let_def make_chan_def)
qed

text \<open>
  A call above the threshold never reaches \<^verbatim>\<open>os.Exit\<close>, whatever the other goroutines
  log.
\<close>

lemma currLevel_relay_print: "currLevel (fst (relay_print e st)) = currLevel st"
  by (simp add: relay_print_def printOut_at_fields)

lemma suppressed_step:
  assumes "step m kvs cf cf'"
    and "FatalLevel < GetLevel (cstate cf) \<and> busy_free (relay cf)
         \<and> (caller cf = C_call \<or> (\<exists>c. caller cf = C_wait c \<and> c \<notin> closed (cstate cf)))"
  shows "FatalLevel < GetLevel (cstate cf') \<and> busy_free (relay cf')
         \<and> (caller cf' = C_call \<or> (\<exists>c. caller cf' = C_wait c \<and> c \<notin> closed (cstate cf')))"
  using assms
  by (cases rule: step.cases)
     (auto simp: GetLevel_def make_chan_def currLevel_relay_print closed_relay_print
       relay_fallback_fields relay_flush_fields relay_signal_fields closed_relay_signal_None)

lemma Fatal_suppressed_never_exits:
  assumes "(step m kvs)\<^sup>*\<^sup>* (start st) cf" and "FatalLevel < GetLevel st"
  shows "alive cf \<and> busy_free (relay cf)"
proof -
  have "FatalLevel < GetLevel (cstate cf) \<and> busy_free (relay cf)
         \<and> (caller cf = C_call \<or> (\<exists>c. caller cf = C_wait c \<and> c \<notin> closed (cstate cf)))"
    using assms(1)
  proof (induction rule: rtranclp_induct)
    case base
    with assms(2) show ?case by (simp add: start_def)
  next
    case (step y z)
    from suppressed_step [OF step(2) step(3)] show ?case .
  qed
  then show ?thesis by (auto simp: alive_def)
qed

end
